theory Spec2Isabelle
  imports Main "HOL-Library.Word"
begin

unbundle bit_operations_syntax

section \<open>Strings and time\<close>

text \<open>
  A Go string is a sequence of bytes, modelled as \<^typ>\<open>string\<close> (a list of 8-bit
  characters). \<^verbatim>\<open>strings.ToLower\<close> and \<^verbatim>\<open>strings.TrimSpace\<close> work on the bytes
  themselves as long as they meet ASCII bytes only, and hand the string over to
  Unicode-aware functions of the standard library when they meet a byte from 0x80 on:
  \<^verbatim>\<open>strings.Map(unicode.ToLower, s)\<close>, \<^verbatim>\<open>strings.TrimFunc(s, unicode.IsSpace)\<close> and
  \<^verbatim>\<open>strings.TrimRightFunc(s, unicode.IsSpace)\<close>. These three read the Unicode tables of
  the standard library, which are no part of this repository: they are taken as a
  parameter, and every statement below holds for whatever they compute, unless it
  says what it needs of them.
\<close>

record unicodeLib =
  mapToLower :: "string \<Rightarrow> string"
  trimFuncSpace :: "string \<Rightarrow> string"
  trimRightFuncSpace :: "string \<Rightarrow> string"

text \<open>\<^verbatim>\<open>c += 'a' - 'A'\<close> for a byte \<^verbatim>\<open>'A' <= c && c <= 'Z'\<close>.\<close>

definition toLowerByte :: "char \<Rightarrow> char" where
  "toLowerByte c =
     (if 65 \<le> (of_char c :: nat) \<and> (of_char c :: nat) \<le> 90
      then char_of ((of_char c :: nat) + 32) else c)"

text \<open>No byte of the string is \<^verbatim>\<open>utf8.RuneSelf\<close> (0x80) or more.\<close>

definition isASCII :: "string \<Rightarrow> bool" where
  "isASCII s = list_all (\<lambda>c. (of_char c :: nat) < 128) s"

text \<open>
  \<^verbatim>\<open>strings.ToLower\<close>: an ASCII string has its upper-case bytes replaced (it is returned
  as it is when it has none, which is the same string); any other string goes to
  \<^verbatim>\<open>Map(unicode.ToLower, s)\<close>.
\<close>

definition ToLower :: "unicodeLib \<Rightarrow> string \<Rightarrow> string" where
  "ToLower U s = (if isASCII s then map toLowerByte s else mapToLower U s)"

text \<open>The table \<^verbatim>\<open>asciiSpace\<close> of the strings package: \<^verbatim>\<open>\t \n \v \f \r\<close> and the blank.\<close>

definition asciiSpace :: "char \<Rightarrow> bool" where
  "asciiSpace c =
     (c = CHR 0x09 \<or> c = CHR 0x0A \<or> c = CHR 0x0B \<or> c = CHR 0x0C \<or> c = CHR 0x0D
      \<or> c = CHR '' '')"

text \<open>
  The second loop of \<^verbatim>\<open>strings.TrimSpace\<close>, which moves \<^verbatim>\<open>stop\<close> down from the end
  of \<^verbatim>\<open>s[start:]\<close>. Its argument is \<^verbatim>\<open>s[start:stop]\<close> reversed, so that the byte
  \<^verbatim>\<open>s[stop-1]\<close> comes first: a byte from 0x80 on sends \<^verbatim>\<open>s[start:stop]\<close> to
  \<^verbatim>\<open>TrimRightFunc\<close>, an ASCII white space is cut, any other byte ends the loop.
  (Some releases of Go call \<^verbatim>\<open>TrimFunc\<close> at this point, which returns the same
  there, \<^verbatim>\<open>s[start]\<close> being no white space; no statement below depends on which.)
\<close>

fun trimStop :: "unicodeLib \<Rightarrow> string \<Rightarrow> string" where
  "trimStop U [] = []"
| "trimStop U (c # cs) =
     (if (of_char c :: nat) \<ge> 128 then trimRightFuncSpace U (rev (c # cs))
      else if asciiSpace c then trimStop U cs
      else rev (c # cs))"

text \<open>
  \<^verbatim>\<open>strings.TrimSpace\<close>, by its first loop, which moves \<^verbatim>\<open>start\<close> up: the argument is
  \<^verbatim>\<open>s[start:]\<close>. A byte from 0x80 on sends \<^verbatim>\<open>s[start:]\<close> to \<^verbatim>\<open>TrimFunc\<close>, an ASCII
  white space is cut, any other byte ends the loop and starts the second one.
\<close>

fun TrimSpace :: "unicodeLib \<Rightarrow> string \<Rightarrow> string" where
  "TrimSpace U [] = []"
| "TrimSpace U (c # cs) =
     (if (of_char c :: nat) \<ge> 128 then trimFuncSpace U (c # cs)
      else if asciiSpace c then TrimSpace U cs
      else trimStop U (rev (c # cs)))"

text \<open>
  One library to compute with: it takes every byte from 0x80 on for a character that is
  neither a letter nor white space. On ASCII strings every library gives what this one
  gives.
\<close>

definition asciiLib :: unicodeLib where
  "asciiLib =
     \<lparr>mapToLower = map toLowerByte,
      trimFuncSpace = (\<lambda>s. rev (dropWhile asciiSpace (rev (dropWhile asciiSpace s)))),
      trimRightFuncSpace = (\<lambda>s. rev (dropWhile asciiSpace (rev s)))\<rparr>"

text \<open>
  A \<^verbatim>\<open>time.Time\<close> is the instant it denotes, counted in nanoseconds from the zero
  time (January 1 of year 1, 00:00:00 UTC), so the zero value \<^verbatim>\<open>time.Time{}\<close> is 0.
\<close>

type_synonym Time = int

definition zeroTime :: Time where
  "zeroTime = 0"

definition Second :: int where
  "Second = 1000000000"

definition After :: "Time \<Rightarrow> Time \<Rightarrow> bool" where
  "After t u = (u < t)"

definition IsZero :: "Time \<Rightarrow> bool" where
  "IsZero t = (t = 0)"

section \<open>The quota group resolver registry\<close>

text \<open>
  \<^verbatim>\<open>type QuotaGroupResolver func(provider, model string) string\<close>. A Go function
  value can be nil: a resolver argument is an option, \<open>None\<close> for nil.
\<close>

type_synonym QuotaGroupResolver = "string \<Rightarrow> string \<Rightarrow> string"

text \<open>
  The package variables \<^verbatim>\<open>quotaGroupResolvers\<close> and \<^verbatim>\<open>quotaGroupProviders\<close>, passed
  and returned explicitly. The mutex \<^verbatim>\<open>quotaGroupMu\<close> makes each operation atomic and
  has no part in a sequential run.
\<close>

record quotaGroupRegistry =
  quotaGroupResolvers :: "string \<rightharpoonup> QuotaGroupResolver option"
  quotaGroupProviders :: "string set"

definition emptyRegistry :: quotaGroupRegistry where
  "emptyRegistry = \<lparr>quotaGroupResolvers = Map.empty, quotaGroupProviders = {}\<rparr>"

definition RegisterQuotaGroupResolver ::
  "unicodeLib \<Rightarrow> quotaGroupRegistry \<Rightarrow> string \<Rightarrow> QuotaGroupResolver option
     \<Rightarrow> quotaGroupRegistry" where
  "RegisterQuotaGroupResolver U reg provider resolver =
     (let provider' = ToLower U (TrimSpace U provider) in
      if provider' = [] \<or> resolver = None then reg
      else reg\<lparr>quotaGroupResolvers := (quotaGroupResolvers reg)(provider' \<mapsto> resolver),
               quotaGroupProviders := insert provider' (quotaGroupProviders reg)\<rparr>)"

definition HasQuotaGrouping :: "unicodeLib \<Rightarrow> quotaGroupRegistry \<Rightarrow> string \<Rightarrow> bool" where
  "HasQuotaGrouping U reg provider = (ToLower U provider \<in> quotaGroupProviders reg)"

definition ResolveQuotaGroup ::
  "unicodeLib \<Rightarrow> quotaGroupRegistry \<Rightarrow> string \<Rightarrow> string \<Rightarrow> string" where
  "ResolveQuotaGroup U reg provider model =
     (if provider = [] \<or> model = [] then []
      else
        let providerLower = ToLower U provider in
        case quotaGroupResolvers reg providerLower of
          None \<Rightarrow> []
        | Some None \<Rightarrow> []
        | Some (Some resolver) \<Rightarrow> resolver providerLower model)"

text \<open>
  The loop \<^verbatim>\<open>for i, r := range modelLower\<close> of \<^verbatim>\<open>extractModelFamily\<close>: \<open>i\<close> is the
  index reached, the list is what is left of \<open>modelLower\<close> from there. The loop goes
  rune by rune, this function byte by byte: the three delimiters are ASCII, a byte
  below 0x80 is always a rune of its own, and no rune decoded from bytes from 0x80 on
  (the replacement rune of an invalid byte included) is a delimiter, so both stop at the
  same index.
\<close>

fun familyLoop :: "string \<Rightarrow> nat \<Rightarrow> string \<Rightarrow> string" where
  "familyLoop modelLower i [] = modelLower"
| "familyLoop modelLower i (r # rest) =
     (if r = CHR ''-'' \<or> r = CHR ''_'' \<or> r = CHR ''.''
      then (if i > 0 then take i modelLower else [])
      else familyLoop modelLower (Suc i) rest)"

definition extractModelFamily :: "unicodeLib \<Rightarrow> string \<Rightarrow> string" where
  "extractModelFamily U model =
     (if model = [] then []
      else let modelLower = ToLower U model in familyLoop modelLower 0 modelLower)"

definition AntigravityQuotaGroupResolver :: "unicodeLib \<Rightarrow> QuotaGroupResolver" where
  "AntigravityQuotaGroupResolver U provider model = extractModelFamily U model"

text \<open>\<^verbatim>\<open>func init()\<close>: the registration made when the package is loaded.\<close>

definition init :: "unicodeLib \<Rightarrow> quotaGroupRegistry \<Rightarrow> quotaGroupRegistry" where
  "init U reg =
     RegisterQuotaGroupResolver U reg ''antigravity'' (Some (AntigravityQuotaGroupResolver U))"

text \<open>
  The registry after a sequence of calls of \<^verbatim>\<open>RegisterQuotaGroupResolver\<close>, each given
  as its two arguments, made in order on the empty maps the package starts with.
\<close>

definition registryAfter ::
  "unicodeLib \<Rightarrow> (string \<times> QuotaGroupResolver option) list \<Rightarrow> quotaGroupRegistry" where
  "registryAfter U calls =
     foldl (\<lambda>reg call. RegisterQuotaGroupResolver U reg (fst call) (snd call))
       emptyRegistry calls"

section \<open>The per-credential index of blocked quota groups\<close>

record quotaGroupState =
  NextRetryAfter :: Time
  NextRecoverAt :: Time
  SourceModel :: string

text \<open>
  \<^verbatim>\<open>blockedGroups map[string]*quotaGroupState\<close>: the map itself can be nil (the outer
  option), and so can a pointer stored in it (the inner one). The methods have a pointer
  receiver that can be nil too: they take a \<open>quotaGroupIndex option\<close> and return the
  index as they leave it.
\<close>

record quotaGroupIndex =
  blockedGroups :: "(string \<rightharpoonup> quotaGroupState option) option"

definition setGroupBlocked ::
  "quotaGroupIndex option \<Rightarrow> string \<Rightarrow> string \<Rightarrow> Time \<Rightarrow> Time \<Rightarrow> quotaGroupIndex option" where
  "setGroupBlocked idx grp sourceModel nextRetry nextRecover =
     (case idx of
        None \<Rightarrow> None
      | Some ix \<Rightarrow>
          if grp = [] then idx
          else
            let m = (case blockedGroups ix of None \<Rightarrow> Map.empty | Some m \<Rightarrow> m) in
            Some (ix\<lparr>blockedGroups :=
              Some (m(grp \<mapsto> Some \<lparr>NextRetryAfter = nextRetry, NextRecoverAt = nextRecover,
                                      SourceModel = sourceModel\<rparr>))\<rparr>))"

definition clearGroup :: "quotaGroupIndex option \<Rightarrow> string \<Rightarrow> quotaGroupIndex option" where
  "clearGroup idx grp =
     (case idx of
        None \<Rightarrow> None
      | Some ix \<Rightarrow>
          (case blockedGroups ix of
             None \<Rightarrow> idx
           | Some m \<Rightarrow> Some (ix\<lparr>blockedGroups := Some (m(grp := None))\<rparr>)))"

definition isGroupBlocked ::
  "quotaGroupIndex option \<Rightarrow> string \<Rightarrow> Time \<Rightarrow> (bool \<times> Time) \<times> quotaGroupIndex option" where
  "isGroupBlocked idx grp now =
     (case idx of
        None \<Rightarrow> ((False, zeroTime), idx)
      | Some ix \<Rightarrow>
          (case blockedGroups ix of
             None \<Rightarrow> ((False, zeroTime), idx)
           | Some m \<Rightarrow>
               if grp = [] then ((False, zeroTime), idx)
               else
                 (case m grp of
                    None \<Rightarrow> ((False, zeroTime), idx)
                  | Some None \<Rightarrow> ((False, zeroTime), idx)
                  | Some (Some state) \<Rightarrow>
                      if After (NextRetryAfter state) now
                      then
                        let next = NextRetryAfter state;
                            next' = (if \<not> IsZero (NextRecoverAt state)
                                        \<and> After (NextRecoverAt state) now
                                        \<and> After (NextRecoverAt state) next
                                     then NextRecoverAt state else next)
                        in ((True, next'), idx)
                      else ((False, zeroTime), Some (ix\<lparr>blockedGroups := Some (m(grp := None))\<rparr>)))))"

section \<open>The token cache\<close>

definition numShards :: nat where
  "numShards = 16"

definition maxEntriesPerShard :: nat where
  "maxEntriesPerShard = 64"

text \<open>
  \<^verbatim>\<open>hash uint64\<close> is a 64-bit word. \<^verbatim>\<open>tokens int\<close> is only stored and handed back,
  never computed with, so its width plays no part: it is an \<^typ>\<open>int\<close>.
\<close>

record tokenCacheEntry =
  hash :: "64 word"
  tokens :: int

text \<open>The lock \<^verbatim>\<open>mu\<close> of a shard has no part in a sequential run and is left out.\<close>

record tokenCacheShard =
  entries :: "tokenCacheEntry list"

text \<open>
  \<^verbatim>\<open>shards [numShards]*tokenCacheShard\<close>: the sixteen shards in order. Every cache
  comes from \<^verbatim>\<open>NewTokenCache\<close>, which allocates all sixteen, and no method replaces a
  shard pointer, so none is nil.
\<close>

record TokenCache =
  shards :: "tokenCacheShard list"

definition NewTokenCache :: TokenCache where
  "NewTokenCache = \<lparr>shards = replicate numShards \<lparr>entries = []\<rparr>\<rparr>"

text \<open>
  \<^verbatim>\<open>hashContent\<close> is 64-bit FNV-1a (\<^verbatim>\<open>fnv.New64a\<close>): from the offset basis, each
  byte is xor-ed into the hash, which is then multiplied by the prime, modulo \<open>2^64\<close>.
\<close>

fun fnvWrite :: "64 word \<Rightarrow> string \<Rightarrow> 64 word" where
  "fnvWrite h [] = h"
| "fnvWrite h (c # cs) = fnvWrite ((h XOR of_char c) * 1099511628211) cs"

definition hashContent :: "string \<Rightarrow> 64 word" where
  "hashContent s = fnvWrite 14695981039346656037 s"

text \<open>\<^verbatim>\<open>hash%numShards\<close>, the index of the shard a hash is routed to.\<close>

definition shardIndex :: "64 word \<Rightarrow> nat" where
  "shardIndex h = unat (h mod word_of_nat numShards)"

text \<open>
  The loop of \<^verbatim>\<open>Get\<close> over \<^verbatim>\<open>shard.entries\<close>: the first entry with the hash
  decides, and \<^verbatim>\<open>(0, false)\<close> is returned when there is none.
\<close>

fun getEntries :: "tokenCacheEntry list \<Rightarrow> 64 word \<Rightarrow> int \<times> bool" where
  "getEntries [] h = (0, False)"
| "getEntries (e # es) h = (if hash e = h then (tokens e, True) else getEntries es h)"

definition TokenCache_Get :: "TokenCache \<Rightarrow> string \<Rightarrow> int \<times> bool" where
  "TokenCache_Get tc content =
     (let h = hashContent content;
          shard = shards tc ! shardIndex h
      in getEntries (entries shard) h)"

text \<open>
  The first loop of \<^verbatim>\<open>Set\<close> (``check if already exists''): \<open>Some\<close> of the entries
  with the token count of the first entry that has the hash overwritten, when
  there is one (the method returns there), and \<open>None\<close> when the loop runs to its end.
\<close>

fun refreshEntry :: "tokenCacheEntry list \<Rightarrow> 64 word \<Rightarrow> int \<Rightarrow> tokenCacheEntry list option" where
  "refreshEntry [] h n = None"
| "refreshEntry (e # es) h n =
     (if hash e = h then Some (e\<lparr>tokens := n\<rparr> # es)
      else map_option ((#) e) (refreshEntry es h n))"

text \<open>
  What \<^verbatim>\<open>Set\<close> does to \<^verbatim>\<open>shard.entries\<close> while it holds the shard's lock:
  \<^verbatim>\<open>entries[1:]\<close> is the tail, taken only of a slice of at least
  \<^verbatim>\<open>maxEntriesPerShard\<close> entries, and \<^verbatim>\<open>append\<close> adds at the back.
\<close>

definition setEntries :: "tokenCacheEntry list \<Rightarrow> 64 word \<Rightarrow> int \<Rightarrow> tokenCacheEntry list" where
  "setEntries es h n =
     (case refreshEntry es h n of
        Some es' \<Rightarrow> es'
      | None \<Rightarrow>
          (if length es \<ge> maxEntriesPerShard then tl es else es) @ [\<lparr>hash = h, tokens = n\<rparr>])"

definition TokenCache_Set :: "TokenCache \<Rightarrow> string \<Rightarrow> int \<Rightarrow> TokenCache" where
  "TokenCache_Set tc content n =
     (let h = hashContent content;
          i = shardIndex h;
          shard = shards tc ! i
      in tc\<lparr>shards := (shards tc)[i := shard\<lparr>entries := setEntries (entries shard) h n\<rparr>]\<rparr>)"

text \<open>
  The cache after a sequence of calls of \<^verbatim>\<open>Set\<close>, each given as its content and its
  token count, made in order on a cache fresh from \<^verbatim>\<open>NewTokenCache\<close>. These are the
  caches a program can hold.
\<close>

definition cacheAfter :: "(string \<times> int) list \<Rightarrow> TokenCache" where
  "cacheAfter calls = foldl (\<lambda>tc call. TokenCache_Set tc (fst call) (snd call)) NewTokenCache calls"

text \<open>The entries of the shard a content is routed to.\<close>

definition shardEntries :: "TokenCache \<Rightarrow> nat \<Rightarrow> tokenCacheEntry list" where
  "shardEntries tc i = entries (shards tc ! i)"

definition shardOf :: "string \<Rightarrow> nat" where
  "shardOf content = shardIndex (hashContent content)"

section \<open>Vocabulary of the statements\<close>

definition isDelimiter :: "char \<Rightarrow> bool" where
  "isDelimiter r = (r = CHR ''-'' \<or> r = CHR ''_'' \<or> r = CHR ''.'')"

fun startsWithDelimiter :: "string \<Rightarrow> bool" where
  "startsWithDelimiter [] = False"
| "startsWithDelimiter (c # cs) = isDelimiter c"

text \<open>
  What the statements about every model identifier need of the library's
  \<^verbatim>\<open>Map(unicode.ToLower, s)\<close>: the result starts with a delimiter exactly when \<open>s\<close>
  does, and holds a delimiter exactly when \<open>s\<close> does. Go's does both: it maps rune
  by rune, a delimiter is its own lower case, the lower case of no other rune is a
  delimiter, and the bytes of a rune that is not ASCII are all from 0x80 on.
\<close>

definition delimiterFaithful :: "(string \<Rightarrow> string) \<Rightarrow> bool" where
  "delimiterFaithful f =
     (\<forall>s. startsWithDelimiter (f s) = startsWithDelimiter s
          \<and> list_ex isDelimiter (f s) = list_ex isDelimiter s)"

fun startsWithBlank :: "string \<Rightarrow> bool" where
  "startsWithBlank [] = False"
| "startsWithBlank (c # cs) = (c = CHR '' '')"

text \<open>
  What the statement that no stored key starts with a blank needs of the library:
  \<^verbatim>\<open>TrimFunc(s, unicode.IsSpace)\<close> does not start with a blank, and
  \<^verbatim>\<open>TrimRightFunc(s, unicode.IsSpace)\<close> and \<^verbatim>\<open>Map(unicode.ToLower, s)\<close> start with
  one only when \<open>s\<close> does. Go's do: the first cuts white space at the front, the
  second returns a prefix of \<open>s\<close>, and the blank is the lower case of no other rune.
\<close>

definition trimFaithful :: "unicodeLib \<Rightarrow> bool" where
  "trimFaithful U =
     (\<forall>s. \<not> startsWithBlank (trimFuncSpace U s)
          \<and> (startsWithBlank (trimRightFuncSpace U s) \<longrightarrow> startsWithBlank s)
          \<and> (startsWithBlank (mapToLower U s) \<longrightarrow> startsWithBlank s))"

definition entryOf :: "string \<times> int \<Rightarrow> tokenCacheEntry" where
  "entryOf call = \<lparr>hash = hashContent (fst call), tokens = snd call\<rparr>"

text \<open>
  Sixty-four contents with their token counts, and a sixty-fifth: their hashes all fall
  in shard 0, and they are listed by increasing hash. They fill a shard and overflow it.
\<close>

definition fullShardCalls :: "(string \<times> int) list" where
  "fullShardCalls =
     [(''1l'', 1), (''0o'', 2), (''2u'', 3), (''2e'', 4), (''ep'', 5), (''e0'', 6),
      (''ds'', 7), (''dc'', 8), (''d3'', 9), (''g6'', 10), (''gf'', 11), (''gv'', 12),
      (''fy'', 13), (''fi'', 14), (''f9'', 15), (''al'', 16), (''cr'', 17), (''cb'', 18),
      (''c2'', 19), (''b5'', 20), (''be'', 21), (''bu'', 22), (''mx'', 23), (''mh'', 24),
      (''m8'', 25), (''lk'', 26), (''on'', 27), (''nq'', 28), (''na'', 29), (''n1'', 30),
      (''i4'', 31), (''id'', 32), (''it'', 33), (''hw'', 34), (''hg'', 35), (''h7'', 36),
      (''kj'', 37), (''kz'', 38), (''jm'', 39), (''up'', 40), (''u0'', 41), (''t3'', 42),
      (''tc'', 43), (''ts'', 44), (''wv'', 45), (''wf'', 46), (''w6'', 47), (''v9'', 48),
      (''vi'', 49), (''vy'', 50), (''ql'', 51), (''po'', 52), (''s2'', 53), (''sb'', 54),
      (''sr'', 55), (''ru'', 56), (''re'', 57), (''r5'', 58), (''yt'', 59), (''yd'', 60),
      (''y4'', 61), (''x7'', 62), (''xg'', 63), (''xw'', 64)]"

definition overflowCalls :: "(string \<times> int) list" where
  "overflowCalls = fullShardCalls @ [(''zm'', 65)]"

section \<open>Facts about strings\<close>

lemma of_char_toLowerByte:
  "(of_char (toLowerByte c) :: nat) =
     (if 65 \<le> (of_char c :: nat) \<and> (of_char c :: nat) \<le> 90 then of_char c + 32 else of_char c)"
  by (simp add: toLowerByte_def)

lemma char_eq_iff_of_char: "(c = d) = ((of_char c :: nat) = of_char d)"
  by auto

lemma toLowerByte_delimiter: "isDelimiter (toLowerByte c) = isDelimiter c"
  unfolding isDelimiter_def
  by (simp add: char_eq_iff_of_char [of _ "CHR ''-''"] char_eq_iff_of_char [of _ "CHR ''_''"]
      char_eq_iff_of_char [of _ "CHR ''.''"] of_char_toLowerByte)

lemma toLowerByte_blank: "(toLowerByte c = CHR '' '') = (c = CHR '' '')"
  by (simp add: char_eq_iff_of_char [of _ "CHR '' ''"] of_char_toLowerByte)

lemma startsWithDelimiter_map_toLowerByte:
  "startsWithDelimiter (map toLowerByte s) = startsWithDelimiter s"
  by (cases s) (simp_all add: toLowerByte_delimiter)

lemma list_ex_map_toLowerByte:
  "list_ex isDelimiter (map toLowerByte s) = list_ex isDelimiter s"
  by (simp add: list_ex_iff toLowerByte_delimiter)

text \<open>On an ASCII string \<open>ToLower\<close> never calls the library.\<close>

lemma ToLower_ascii: "isASCII s \<Longrightarrow> ToLower U s = map toLowerByte s"
  by (simp add: ToLower_def)

text \<open>
  \<open>ToLower\<close> keeps delimiters where they are, on an ASCII string and, with a library
  that does so, on every string.
\<close>

lemma delimiterFaithfulD:
  "delimiterFaithful f \<Longrightarrow>
     startsWithDelimiter (f s) = startsWithDelimiter s
     \<and> list_ex isDelimiter (f s) = list_ex isDelimiter s"
  unfolding delimiterFaithful_def by blast

lemma ToLower_startsWithDelimiter:
  "isASCII s \<or> delimiterFaithful (mapToLower U) \<Longrightarrow>
     startsWithDelimiter (ToLower U s) = startsWithDelimiter s"
proof (cases "isASCII s")
  case True
  then show ?thesis by (simp add: ToLower_def startsWithDelimiter_map_toLowerByte)
next
  case False
  assume "isASCII s \<or> delimiterFaithful (mapToLower U)"
  with False have "delimiterFaithful (mapToLower U)" by simp
  then have "startsWithDelimiter (mapToLower U s) = startsWithDelimiter s"
    by (simp add: delimiterFaithfulD)
  with False show ?thesis by (simp add: ToLower_def)
qed

lemma ToLower_list_ex_delimiter:
  "isASCII s \<or> delimiterFaithful (mapToLower U) \<Longrightarrow>
     list_ex isDelimiter (ToLower U s) = list_ex isDelimiter s"
proof (cases "isASCII s")
  case True
  then show ?thesis by (simp add: ToLower_def list_ex_map_toLowerByte)
next
  case False
  assume "isASCII s \<or> delimiterFaithful (mapToLower U)"
  with False have "delimiterFaithful (mapToLower U)" by simp
  then have "list_ex isDelimiter (mapToLower U s) = list_ex isDelimiter s"
    by (simp add: delimiterFaithfulD)
  with False show ?thesis by (simp add: ToLower_def)
qed

lemma asciiLib_delimiterFaithful: "delimiterFaithful (mapToLower asciiLib)"
  by (simp add: delimiterFaithful_def asciiLib_def startsWithDelimiter_map_toLowerByte
      list_ex_map_toLowerByte)

text \<open>
  On an ASCII string \<open>TrimSpace\<close> never calls the library, and what it returns does
  not start with white space.
\<close>

lemma trimStop_ascii:
  "isASCII xs \<Longrightarrow> trimStop U xs = rev (dropWhile asciiSpace xs)"
  by (induction xs) (simp_all add: isASCII_def)

declare trimStop.simps [simp del]

lemma TrimSpace_ascii:
  "isASCII s \<Longrightarrow> TrimSpace U s = rev (dropWhile asciiSpace (rev (dropWhile asciiSpace s)))"
proof (induction s)
  case Nil
  then show ?case by simp
next
  case (Cons c cs)
  show ?case
  proof (cases "asciiSpace c")
    case True
    with Cons show ?thesis by (simp add: isASCII_def)
  next
    case False
    from Cons.prems have "isASCII (rev (c # cs))" by (simp add: isASCII_def)
    then have "trimStop U (rev (c # cs)) = rev (dropWhile asciiSpace (rev (c # cs)))"
      by (rule trimStop_ascii)
    with False Cons.prems show ?thesis by (simp add: isASCII_def)
  qed
qed

declare TrimSpace.simps [simp del]

lemma dropWhile_keeps_last:
  "xs \<noteq> [] \<Longrightarrow> \<not> P (last xs) \<Longrightarrow> dropWhile P xs \<noteq> [] \<and> last (dropWhile P xs) = last xs"
  by (induction xs) (auto split: if_splits)

lemma ascii_trim_head:
  "rev (dropWhile asciiSpace (rev (dropWhile asciiSpace s))) = c # cs \<Longrightarrow> \<not> asciiSpace c"
proof -
  define y where "y = dropWhile asciiSpace s"
  assume a: "rev (dropWhile asciiSpace (rev (dropWhile asciiSpace s))) = c # cs"
  then have ts: "rev (dropWhile asciiSpace (rev y)) = c # cs" by (simp add: y_def)
  have ne: "y \<noteq> []"
  proof
    assume "y = []"
    with ts show False by simp
  qed
  then have hy: "\<not> asciiSpace (hd y)" unfolding y_def by (metis hd_dropWhile)
  have l: "\<not> asciiSpace (last (rev y))" using hy ne by (simp add: last_rev)
  have "last (dropWhile asciiSpace (rev y)) = hd y"
    using dropWhile_keeps_last [of "rev y" asciiSpace] l ne by (simp add: last_rev)
  moreover have "dropWhile asciiSpace (rev y) \<noteq> []"
    using dropWhile_keeps_last [of "rev y" asciiSpace] l ne by simp
  ultimately have "hd (rev (dropWhile asciiSpace (rev y))) = hd y"
    by (simp add: hd_rev)
  with ts hy show ?thesis by simp
qed

lemma set_dropWhile_subset: "set (dropWhile P xs) \<subseteq> set xs"
  by (auto dest: set_dropWhileD)

lemma isASCII_suffix_of_trim:
  "isASCII s \<Longrightarrow> isASCII (rev (dropWhile asciiSpace (rev (dropWhile asciiSpace s))))"
proof -
  assume a: "isASCII s"
  have "set (dropWhile asciiSpace (rev (dropWhile asciiSpace s)))
      \<subseteq> set (rev (dropWhile asciiSpace s))"
    by (rule set_dropWhile_subset)
  moreover have "set (dropWhile asciiSpace s) \<subseteq> set s"
    by (rule set_dropWhile_subset)
  ultimately have "set (rev (dropWhile asciiSpace (rev (dropWhile asciiSpace s)))) \<subseteq> set s"
    by simp
  with a show ?thesis by (auto simp: isASCII_def list_all_iff)
qed

text \<open>
  So the key that \<open>RegisterQuotaGroupResolver\<close> makes of an ASCII name does not start
  with a blank, whatever the library.
\<close>

lemma ascii_key_no_leading_blank:
  "isASCII s \<Longrightarrow> ToLower U (TrimSpace U s) \<noteq> CHR '' '' # cs"
proof
  assume s: "isASCII s" and a: "ToLower U (TrimSpace U s) = CHR '' '' # cs"
  define t where "t = rev (dropWhile asciiSpace (rev (dropWhile asciiSpace s)))"
  have tr: "TrimSpace U s = t" using s by (simp add: TrimSpace_ascii t_def)
  have "isASCII t" unfolding t_def using s by (rule isASCII_suffix_of_trim)
  with a tr have "map toLowerByte t = CHR '' '' # cs" by (simp add: ToLower_def)
  then obtain c cs' where t: "t = c # cs'" and c: "toLowerByte c = CHR '' ''"
    by auto
  from c have "c = CHR '' ''" by (simp add: toLowerByte_blank)
  moreover from t have "\<not> asciiSpace c" unfolding t_def by (rule ascii_trim_head)
  ultimately show False by (simp add: asciiSpace_def)
qed

text \<open>Nor does the key of any name, with a library that trims as Go's does.\<close>

lemma trimFaithful_trimFunc: "trimFaithful U \<Longrightarrow> \<not> startsWithBlank (trimFuncSpace U s)"
  unfolding trimFaithful_def by blast

lemma trimFaithful_trimRightFunc:
  "trimFaithful U \<Longrightarrow> \<not> startsWithBlank s \<Longrightarrow> \<not> startsWithBlank (trimRightFuncSpace U s)"
  unfolding trimFaithful_def by blast

lemma trimFaithful_mapToLower:
  "trimFaithful U \<Longrightarrow> \<not> startsWithBlank s \<Longrightarrow> \<not> startsWithBlank (mapToLower U s)"
  unfolding trimFaithful_def by blast

lemma startsWithBlank_iff: "startsWithBlank s = (s \<noteq> [] \<and> hd s = CHR '' '')"
  by (cases s) simp_all

lemma trimStop_no_leading_blank:
  "trimFaithful U \<Longrightarrow> xs \<noteq> [] \<Longrightarrow> \<not> asciiSpace (last xs) \<Longrightarrow>
     \<not> startsWithBlank (trimStop U xs)"
proof (induction xs)
  case Nil
  then show ?case by simp
next
  case (Cons d ds)
  have "hd (rev (d # ds)) = last (d # ds)" by (simp only: hd_rev)
  with Cons.prems(3) have r: "\<not> startsWithBlank (rev (d # ds))"
    by (auto simp: startsWithBlank_iff asciiSpace_def)
  show ?case
  proof (cases "(of_char d :: nat) \<ge> 128")
    case True
    from Cons.prems(1) r have "\<not> startsWithBlank (trimRightFuncSpace U (rev (d # ds)))"
      by (rule trimFaithful_trimRightFunc)
    with True show ?thesis by (simp add: trimStop.simps)
  next
    case False
    show ?thesis
    proof (cases "asciiSpace d")
      case True
      with Cons.prems(3) have "ds \<noteq> []" by auto
      with Cons True False show ?thesis by (simp add: trimStop.simps)
    next
      case sp: False
      with False r show ?thesis by (simp add: trimStop.simps)
    qed
  qed
qed

lemma TrimSpace_no_leading_blank:
  "trimFaithful U \<Longrightarrow> \<not> startsWithBlank (TrimSpace U s)"
proof (induction s)
  case Nil
  then show ?case by (simp add: TrimSpace.simps)
next
  case (Cons c cs)
  show ?case
  proof (cases "(of_char c :: nat) \<ge> 128")
    case True
    from Cons.prems have "\<not> startsWithBlank (trimFuncSpace U (c # cs))"
      by (rule trimFaithful_trimFunc)
    with True show ?thesis by (simp add: TrimSpace.simps)
  next
    case False
    show ?thesis
    proof (cases "asciiSpace c")
      case True
      with Cons False show ?thesis by (simp add: TrimSpace.simps)
    next
      case sp: False
      then have "\<not> asciiSpace (last (rev (c # cs)))" by simp
      with Cons.prems have "\<not> startsWithBlank (trimStop U (rev (c # cs)))"
        by (intro trimStop_no_leading_blank) simp_all
      with False sp show ?thesis by (simp add: TrimSpace.simps)
    qed
  qed
qed

lemma faithful_key_no_leading_blank:
  "trimFaithful U \<Longrightarrow> ToLower U (TrimSpace U s) \<noteq> CHR '' '' # cs"
proof
  assume f: "trimFaithful U" and a: "ToLower U (TrimSpace U s) = CHR '' '' # cs"
  have t: "\<not> startsWithBlank (TrimSpace U s)" using f by (rule TrimSpace_no_leading_blank)
  show False
  proof (cases "isASCII (TrimSpace U s)")
    case True
    with a have "map toLowerByte (TrimSpace U s) = CHR '' '' # cs" by (simp add: ToLower_def)
    then obtain c cs' where "TrimSpace U s = c # cs'" and "toLowerByte c = CHR '' ''" by auto
    with t show False by (simp add: toLowerByte_blank)
  next
    case False
    with a have "startsWithBlank (mapToLower U (TrimSpace U s))" by (simp add: ToLower_def)
    moreover from f t have "\<not> startsWithBlank (mapToLower U (TrimSpace U s))"
      by (rule trimFaithful_mapToLower)
    ultimately show False by simp
  qed
qed

lemma asciiLib_trimFaithful: "trimFaithful asciiLib"
proof -
  have 1: "\<not> startsWithBlank (rev (dropWhile asciiSpace (rev (dropWhile asciiSpace s))))" for s
  proof (cases "rev (dropWhile asciiSpace (rev (dropWhile asciiSpace s)))")
    case Nil
    show ?thesis unfolding Nil by simp
  next
    case (Cons c cs)
    then have "\<not> asciiSpace c" by (rule ascii_trim_head)
    then have "c \<noteq> CHR '' ''" by (auto simp: asciiSpace_def)
    then show ?thesis unfolding Cons by simp
  qed
  have 2: "startsWithBlank (rev (dropWhile asciiSpace (rev s))) \<longrightarrow> startsWithBlank s" for s
  proof
    assume a: "startsWithBlank (rev (dropWhile asciiSpace (rev s)))"
    have "rev s = takeWhile asciiSpace (rev s) @ dropWhile asciiSpace (rev s)"
      by (simp only: takeWhile_dropWhile_id)
    then have "rev (rev s)
        = rev (takeWhile asciiSpace (rev s) @ dropWhile asciiSpace (rev s))"
      by (rule arg_cong)
    then have s: "s = rev (dropWhile asciiSpace (rev s)) @ rev (takeWhile asciiSpace (rev s))"
      by (simp only: rev_rev_ident rev_append)
    show "startsWithBlank s"
    proof (cases "rev (dropWhile asciiSpace (rev s))")
      case Nil
      with a show ?thesis by (simp only: startsWithBlank.simps)
    next
      case (Cons c cs)
      with a have "c = CHR '' ''" by (simp only: startsWithBlank.simps)
      moreover from s Cons have "s = c # (cs @ rev (takeWhile asciiSpace (rev s)))"
        by (simp only: append_Cons)
      ultimately show ?thesis by (metis startsWithBlank.simps(2))
    qed
  qed
  have 3: "startsWithBlank (map toLowerByte s) \<longrightarrow> startsWithBlank s" for s
    by (cases s) (simp_all add: toLowerByte_blank)
  have sel: "trimFuncSpace asciiLib = (\<lambda>s. rev (dropWhile asciiSpace (rev (dropWhile asciiSpace s))))"
    "trimRightFuncSpace asciiLib = (\<lambda>s. rev (dropWhile asciiSpace (rev s)))"
    "mapToLower asciiLib = map toLowerByte"
    by (simp_all add: asciiLib_def)
  show ?thesis unfolding trimFaithful_def sel using 1 2 3 by blast
qed

section \<open>The family resolver\<close>

text \<open>
  What \<open>extractModelFamily\<close> returns, whatever the library: the lower-cased
  identifier up to its first delimiter.
\<close>

lemma familyLoop_takeWhile:
  "familyLoop (pre @ rest) (length pre) rest =
     (if list_ex isDelimiter rest
      then (if pre = [] then takeWhile (\<lambda>c. \<not> isDelimiter c) rest
            else pre @ takeWhile (\<lambda>c. \<not> isDelimiter c) rest)
      else pre @ rest)"
proof (induction rest arbitrary: pre)
  case Nil
  then show ?case by simp
next
  case (Cons r rest)
  show ?case
  proof (cases "isDelimiter r")
    case True
    then show ?thesis by (simp add: isDelimiter_def)
  next
    case False
    have "familyLoop (pre @ r # rest) (length pre) (r # rest)
        = familyLoop ((pre @ [r]) @ rest) (length (pre @ [r])) rest"
      using False by (simp add: isDelimiter_def)
    also have "\<dots> = (if list_ex isDelimiter rest
        then (pre @ [r]) @ takeWhile (\<lambda>c. \<not> isDelimiter c) rest else (pre @ [r]) @ rest)"
      by (subst Cons.IH) simp
    finally show ?thesis using False by simp
  qed
qed

lemma extractModelFamily_takeWhile:
  "extractModelFamily U model = takeWhile (\<lambda>c. \<not> isDelimiter c) (ToLower U model)"
proof (cases "model = []")
  case True
  then show ?thesis by (simp add: extractModelFamily_def ToLower_def isASCII_def)
next
  case False
  have "familyLoop (ToLower U model) 0 (ToLower U model)
      = takeWhile (\<lambda>c. \<not> isDelimiter c) (ToLower U model)"
  proof (cases "list_ex isDelimiter (ToLower U model)")
    case True
    then show ?thesis using familyLoop_takeWhile [of "[]" "ToLower U model"] by simp
  next
    case False
    have fl: "familyLoop (ToLower U model) 0 (ToLower U model) = ToLower U model"
      using False familyLoop_takeWhile [of "[]" "ToLower U model"] by simp
    have tw: "takeWhile (\<lambda>c. \<not> isDelimiter c) (ToLower U model) = ToLower U model"
      using False by (simp add: list_ex_iff)
    show ?thesis by (simp only: fl tw)
  qed
  with False show ?thesis by (simp add: extractModelFamily_def)
qed

lemma takeWhile_starts: "startsWithDelimiter s \<Longrightarrow> takeWhile (\<lambda>c. \<not> isDelimiter c) s = []"
  by (cases s) simp_all

lemma takeWhile_whole:
  "(takeWhile (\<lambda>c. \<not> isDelimiter c) s = s) = (\<not> list_ex isDelimiter s)"
  by (simp add: takeWhile_eq_all_conv list_ex_iff)

text \<open>
  C2, as the code has it. The claim is that a model identifier starting with one of the
  delimiters \<^verbatim>\<open>-\<close>, \<^verbatim>\<open>_\<close>, \<^verbatim>\<open>.\<close> has its whole lower-cased self as its group. The
  loop of \<^verbatim>\<open>extractModelFamily\<close> returns \<^verbatim>\<open>""\<close> when it meets a delimiter at index
  0: the family resolver returns the lower-cased identifier up to its first
  delimiter, so for every identifier that starts with a delimiter it returns the empty
  string (no group), and it returns the whole lower-cased identifier exactly when the
  identifier has no delimiter at all. This holds of every ASCII identifier whatever
  the library, and of every identifier with a library that keeps delimiters where they
  are, as Go's does.
\<close>

theorem family_of_leading_delimiter:
  assumes "isASCII model \<or> delimiterFaithful (mapToLower U)"
  shows "AntigravityQuotaGroupResolver U provider model
           = takeWhile (\<lambda>c. \<not> isDelimiter c) (ToLower U model)
         \<and> (startsWithDelimiter model \<longrightarrow> AntigravityQuotaGroupResolver U provider model = [])
         \<and> ((AntigravityQuotaGroupResolver U provider model = ToLower U model)
              = (\<not> list_ex isDelimiter model))"
proof -
  have 1: "AntigravityQuotaGroupResolver U provider model
      = takeWhile (\<lambda>c. \<not> isDelimiter c) (ToLower U model)"
    by (simp add: AntigravityQuotaGroupResolver_def extractModelFamily_takeWhile)
  have s: "startsWithDelimiter (ToLower U model) = startsWithDelimiter model"
    using assms by (rule ToLower_startsWithDelimiter)
  have e: "list_ex isDelimiter (ToLower U model) = list_ex isDelimiter model"
    using assms by (rule ToLower_list_ex_delimiter)
  have 2: "startsWithDelimiter model \<longrightarrow> AntigravityQuotaGroupResolver U provider model = []"
    using s by (simp add: 1 takeWhile_starts)
  have 3: "(AntigravityQuotaGroupResolver U provider model = ToLower U model)
      = (\<not> list_ex isDelimiter model)"
    using e by (simp only: 1 takeWhile_whole)
  from 1 2 3 show ?thesis by blast
qed

text \<open>
  C2, at concrete inputs: \<^verbatim>\<open>"-foo"\<close>, \<^verbatim>\<open>"o1"\<close> and \<^verbatim>\<open>"gpt-4o"\<close>, with a library that
  keeps delimiters where they are.
\<close>

theorem family_of_leading_delimiter_witness:
  "delimiterFaithful (mapToLower asciiLib)
   \<and> isASCII ''-foo''
   \<and> startsWithDelimiter ''-foo''
   \<and> AntigravityQuotaGroupResolver asciiLib ''antigravity'' ''-foo'' = []
   \<and> \<not> list_ex isDelimiter ''o1''
   \<and> AntigravityQuotaGroupResolver asciiLib ''antigravity'' ''o1'' = ''o1''
   \<and> list_ex isDelimiter ''gpt-4o''
   \<and> AntigravityQuotaGroupResolver asciiLib ''antigravity'' ''gpt-4o'' = ''gpt''
   \<and> AntigravityQuotaGroupResolver asciiLib ''antigravity'' ''gpt-4o''
       \<noteq> ToLower asciiLib ''gpt-4o''"
proof -
  note f = asciiLib_delimiterFaithful
  have i: "isASCII ''-foo''" by code_simp
  have d: "startsWithDelimiter ''-foo''" by code_simp
  have n: "\<not> list_ex isDelimiter ''o1''" by code_simp
  have e: "list_ex isDelimiter ''gpt-4o''" by code_simp
  have l1: "ToLower asciiLib ''o1'' = ''o1''" by code_simp
  have t: "takeWhile (\<lambda>c. \<not> isDelimiter c) (ToLower asciiLib ''gpt-4o'') = ''gpt''"
    by code_simp
  note a = family_of_leading_delimiter [where U = asciiLib and model = "''-foo''"
      and provider = "''antigravity''", OF disjI1 [OF i]]
  note b = family_of_leading_delimiter [where U = asciiLib and model = "''o1''"
      and provider = "''antigravity''", OF disjI2 [OF f]]
  note c = family_of_leading_delimiter [where U = asciiLib and model = "''gpt-4o''"
      and provider = "''antigravity''", OF disjI2 [OF f]]
  have 1: "AntigravityQuotaGroupResolver asciiLib ''antigravity'' ''-foo'' = []"
    using a [THEN conjunct2, THEN conjunct1] d by (rule mp)
  have 2: "AntigravityQuotaGroupResolver asciiLib ''antigravity'' ''o1'' = ''o1''"
    using b [THEN conjunct2, THEN conjunct2] n l1 by simp
  have 3: "AntigravityQuotaGroupResolver asciiLib ''antigravity'' ''gpt-4o'' = ''gpt''"
    using c [THEN conjunct1] t by simp
  have 4: "AntigravityQuotaGroupResolver asciiLib ''antigravity'' ''gpt-4o''
      \<noteq> ToLower asciiLib ''gpt-4o''"
    using c [THEN conjunct2, THEN conjunct2] e by simp
  from f i d 1 n 2 e 3 4 show ?thesis by blast
qed

text \<open>
  At \<^verbatim>\<open>"-foo"\<close> the resolver returns \<^verbatim>\<open>""\<close> and the whole lower-cased identifier is
  \<^verbatim>\<open>"-foo"\<close>, with every library: the identifier is ASCII.
\<close>

lemma dash_foo_any_library:
  "AntigravityQuotaGroupResolver U provider ''-foo'' = [] \<and> ToLower U ''-foo'' = ''-foo''"
proof -
  have a: "extractModelFamily U ''-foo'' = []" by code_simp
  have b: "ToLower U ''-foo'' = ''-foo''" by code_simp
  from a b show ?thesis by (simp add: AntigravityQuotaGroupResolver_def)
qed

text \<open>
  C2, as the claim states it, fails at \<^verbatim>\<open>"-foo"\<close>: the resolver returns \<^verbatim>\<open>""\<close>, the
  whole lower-cased identifier is \<^verbatim>\<open>"-foo"\<close>. The library it is stated with has no
  part in it (\<open>dash_foo_any_library\<close>).
\<close>

theorem family_of_dash_foo_counterexample:
  "AntigravityQuotaGroupResolver asciiLib ''antigravity'' ''-foo'' = []
   \<and> ToLower asciiLib ''-foo'' = ''-foo''
   \<and> AntigravityQuotaGroupResolver asciiLib ''antigravity'' ''-foo'' \<noteq> ToLower asciiLib ''-foo''"
proof -
  have a: "extractModelFamily asciiLib ''-foo'' = []" by code_simp
  have b: "ToLower asciiLib ''-foo'' = ''-foo''" by code_simp
  from a b show ?thesis by (simp add: AntigravityQuotaGroupResolver_def)
qed

text \<open>
  C6. The family resolver returns \<^verbatim>\<open>"claude"\<close> for \<^verbatim>\<open>"claude-opus-4-5-thinking"\<close>,
  \<^verbatim>\<open>"gemini"\<close> for \<^verbatim>\<open>"gemini-2.5-pro"\<close>, \<^verbatim>\<open>"gpt"\<close> for \<^verbatim>\<open>"gpt-4o"\<close>, \<^verbatim>\<open>"o1"\<close> for
  \<^verbatim>\<open>"o1"\<close> and \<^verbatim>\<open>""\<close> for \<^verbatim>\<open>""\<close>, whatever the provider argument and whatever the
  library: it is a function of the model identifier alone.
\<close>

theorem family_resolver_examples:
  "AntigravityQuotaGroupResolver U provider ''claude-opus-4-5-thinking'' = ''claude''
   \<and> AntigravityQuotaGroupResolver U provider ''gemini-2.5-pro'' = ''gemini''
   \<and> AntigravityQuotaGroupResolver U provider ''gpt-4o'' = ''gpt''
   \<and> AntigravityQuotaGroupResolver U provider ''o1'' = ''o1''
   \<and> AntigravityQuotaGroupResolver U provider [] = []"
proof -
  have 1: "extractModelFamily U ''claude-opus-4-5-thinking'' = ''claude''" by code_simp
  have 2: "extractModelFamily U ''gemini-2.5-pro'' = ''gemini''" by code_simp
  have 3: "extractModelFamily U ''gpt-4o'' = ''gpt''" by code_simp
  have 4: "extractModelFamily U ''o1'' = ''o1''" by code_simp
  have 5: "extractModelFamily U [] = []" by (simp add: extractModelFamily_def)
  from 1 2 3 4 5 show ?thesis by (simp add: AntigravityQuotaGroupResolver_def)
qed

section \<open>The registry\<close>

lemma registryAfter_Nil: "registryAfter U [] = emptyRegistry"
  by (simp add: registryAfter_def)

lemma registryAfter_snoc:
  "registryAfter U (calls @ [call]) =
     RegisterQuotaGroupResolver U (registryAfter U calls) (fst call) (snd call)"
  by (simp add: registryAfter_def)

lemma providers_after_register:
  "quotaGroupProviders (RegisterQuotaGroupResolver U reg p r) =
     (if ToLower U (TrimSpace U p) = [] \<or> r = None then quotaGroupProviders reg
      else insert (ToLower U (TrimSpace U p)) (quotaGroupProviders reg))"
  by (simp add: RegisterQuotaGroupResolver_def Let_def)

lemma resolvers_after_register:
  "quotaGroupResolvers (RegisterQuotaGroupResolver U reg p r) =
     (if ToLower U (TrimSpace U p) = [] \<or> r = None then quotaGroupResolvers reg
      else (quotaGroupResolvers reg)(ToLower U (TrimSpace U p) \<mapsto> r))"
  by (simp add: RegisterQuotaGroupResolver_def Let_def)

lemma resolve_empty_model: "ResolveQuotaGroup U reg q [] = []"
  by (simp add: ResolveQuotaGroup_def)

text \<open>Every key of the fast lookup set is the trimmed, lower-cased name of some call.\<close>

lemma registered_keys:
  "k \<in> quotaGroupProviders (registryAfter U calls) \<Longrightarrow>
     \<exists>call \<in> set calls. ToLower U (TrimSpace U (fst call)) = k"
proof (induction calls rule: rev_induct)
  case Nil
  then show ?case by (simp add: registryAfter_Nil emptyRegistry_def)
next
  case (snoc call calls)
  then show ?case
    by (auto simp: registryAfter_snoc providers_after_register split: if_splits)
qed

text \<open>The two maps always have the same keys.\<close>

lemma resolvers_dom:
  "(quotaGroupResolvers (registryAfter U calls) k = None) =
     (k \<notin> quotaGroupProviders (registryAfter U calls))"
proof (induction calls rule: rev_induct)
  case Nil
  then show ?case by (simp add: registryAfter_Nil emptyRegistry_def)
next
  case (snoc call calls)
  then show ?case
    by (simp add: registryAfter_snoc providers_after_register resolvers_after_register)
qed

text \<open>
  C7, as the code has it. The claim is about every provider name that was never passed
  to \<^verbatim>\<open>RegisterQuotaGroupResolver\<close>. The registry compares names after normalising
  them, so the name itself need not have been passed: when the lower-cased provider
  name (by \<^verbatim>\<open>strings.ToLower\<close>) differs from the trimmed, lower-cased name (by
  \<^verbatim>\<open>strings.TrimSpace\<close>, then \<^verbatim>\<open>strings.ToLower\<close>) of every registration made so far,
  \<^verbatim>\<open>HasQuotaGrouping\<close> returns false and \<^verbatim>\<open>ResolveQuotaGroup\<close> returns \<^verbatim>\<open>""\<close> for
  every model. This holds whatever the library computes on names that are not ASCII.
\<close>

theorem unregistered_provider_has_no_grouping:
  assumes "\<forall>call \<in> set calls. ToLower U (TrimSpace U (fst call)) \<noteq> ToLower U provider"
  shows "\<not> HasQuotaGrouping U (registryAfter U calls) provider
         \<and> ResolveQuotaGroup U (registryAfter U calls) provider model = []"
proof -
  have k: "ToLower U provider \<notin> quotaGroupProviders (registryAfter U calls)"
    using assms registered_keys by blast
  then have "quotaGroupResolvers (registryAfter U calls) (ToLower U provider) = None"
    by (simp add: resolvers_dom)
  with k show ?thesis
    by (simp add: HasQuotaGrouping_def ResolveQuotaGroup_def)
qed

theorem unregistered_provider_has_no_grouping_witness:
  "ToLower asciiLib (TrimSpace asciiLib ''antigravity'') \<noteq> ToLower asciiLib ''openai''
   \<and> \<not> HasQuotaGrouping asciiLib
         (registryAfter asciiLib
            [(''antigravity'', Some (AntigravityQuotaGroupResolver asciiLib))]) ''openai''
   \<and> ResolveQuotaGroup asciiLib
         (registryAfter asciiLib
            [(''antigravity'', Some (AntigravityQuotaGroupResolver asciiLib))])
         ''openai'' ''gpt-4o'' = []"
proof -
  have a: "ToLower asciiLib (TrimSpace asciiLib ''antigravity'') = ''antigravity''"
    by code_simp
  have b: "ToLower asciiLib ''openai'' = ''openai''" by code_simp
  have h: "\<forall>call \<in> set [(''antigravity'', Some (AntigravityQuotaGroupResolver asciiLib))].
          ToLower asciiLib (TrimSpace asciiLib (fst call)) \<noteq> ToLower asciiLib ''openai''"
    by (simp add: a b)
  show ?thesis
    using unregistered_provider_has_no_grouping [OF h, of "''gpt-4o''"] by (simp add: a b)
qed

text \<open>
  With every library, after the registration that \<^verbatim>\<open>init\<close> makes,
  \<^verbatim>\<open>"Antigravity"\<close> has a group: all the strings are ASCII.
\<close>

lemma capitalised_provider_any_library:
  "HasQuotaGrouping U
     (registryAfter U [(''antigravity'', Some (AntigravityQuotaGroupResolver U))]) ''Antigravity''
   \<and> ResolveQuotaGroup U
       (registryAfter U [(''antigravity'', Some (AntigravityQuotaGroupResolver U))])
       ''Antigravity'' ''gemini-2.5-pro'' = ''gemini''"
proof -
  have a: "ToLower U (TrimSpace U ''antigravity'') = ''antigravity''" by code_simp
  have b: "ToLower U ''Antigravity'' = ''antigravity''" by code_simp
  have c: "extractModelFamily U ''gemini-2.5-pro'' = ''gemini''" by code_simp
  show ?thesis
    by (simp add: registryAfter_def emptyRegistry_def RegisterQuotaGroupResolver_def
        HasQuotaGrouping_def ResolveQuotaGroup_def AntigravityQuotaGroupResolver_def
        Let_def a b c)
qed

text \<open>
  C7, as the claim states it, fails at \<^verbatim>\<open>"Antigravity"\<close>: the only name ever passed to
  \<^verbatim>\<open>RegisterQuotaGroupResolver\<close> (by \<^verbatim>\<open>init\<close>) is \<^verbatim>\<open>"antigravity"\<close>, and yet
  \<^verbatim>\<open>HasQuotaGrouping("Antigravity")\<close> is true and
  \<^verbatim>\<open>ResolveQuotaGroup("Antigravity", "gemini-2.5-pro")\<close> is \<^verbatim>\<open>"gemini"\<close>. The
  library it is stated with has no part in it (\<open>capitalised_provider_any_library\<close>).
\<close>

theorem capitalised_provider_counterexample:
  "''Antigravity''
     \<notin> set (map fst [(''antigravity'', Some (AntigravityQuotaGroupResolver asciiLib))])
   \<and> registryAfter asciiLib [(''antigravity'', Some (AntigravityQuotaGroupResolver asciiLib))]
       = init asciiLib emptyRegistry
   \<and> HasQuotaGrouping asciiLib
        (registryAfter asciiLib
           [(''antigravity'', Some (AntigravityQuotaGroupResolver asciiLib))]) ''Antigravity''
   \<and> ResolveQuotaGroup asciiLib
        (registryAfter asciiLib
           [(''antigravity'', Some (AntigravityQuotaGroupResolver asciiLib))])
        ''Antigravity'' ''gemini-2.5-pro'' = ''gemini''"
proof -
  have a: "ToLower asciiLib (TrimSpace asciiLib ''antigravity'') = ''antigravity''"
    by code_simp
  have b: "ToLower asciiLib ''Antigravity'' = ''antigravity''" by code_simp
  have c: "extractModelFamily asciiLib ''gemini-2.5-pro'' = ''gemini''" by code_simp
  show ?thesis
    by (simp add: registryAfter_def emptyRegistry_def RegisterQuotaGroupResolver_def
        init_def HasQuotaGrouping_def ResolveQuotaGroup_def AntigravityQuotaGroupResolver_def
        Let_def a b c)
qed

text \<open>
  C9. Registration and lookup normalise provider names differently:
  \<^verbatim>\<open>RegisterQuotaGroupResolver\<close> stores the resolver under the trimmed, lower-cased
  name, \<^verbatim>\<open>HasQuotaGrouping\<close> and \<^verbatim>\<open>ResolveQuotaGroup\<close> look the lower-cased name up
  without trimming it. So, on every registry and for every name looked up, after a
  registration of a resolver \<open>r\<close> the first finds a group exactly when the
  lower-cased name is the key just stored or it found one before, and the second hands
  key and model to \<open>r\<close> in the first of these cases and returns what it returned
  before in every other. After \<^verbatim>\<open>RegisterQuotaGroupResolver(" P ", r)\<close> the lookups
  succeed for \<^verbatim>\<open>"p"\<close> and for \<^verbatim>\<open>"P"\<close>, while \<^verbatim>\<open>HasQuotaGrouping(" p ")\<close> is false and
  \<^verbatim>\<open>ResolveQuotaGroup(" p ", m)\<close> is \<^verbatim>\<open>""\<close> for every model \<open>m\<close>: this after any
  earlier registrations, with a library that trims as Go's does, and with any library
  as long as no earlier registration stored the key \<^verbatim>\<open>" p "\<close> (none on an ASCII
  name does, by \<open>ascii_key_no_leading_blank\<close>).
\<close>

theorem register_trims_lookup_does_not:
  "HasQuotaGrouping U (RegisterQuotaGroupResolver U reg provider (Some r)) q
     = (if ToLower U (TrimSpace U provider) \<noteq> []
           \<and> ToLower U q = ToLower U (TrimSpace U provider)
        then True else HasQuotaGrouping U reg q)
   \<and> ResolveQuotaGroup U (RegisterQuotaGroupResolver U reg provider (Some r)) q m
     = (if q \<noteq> [] \<and> m \<noteq> [] \<and> ToLower U (TrimSpace U provider) \<noteq> []
           \<and> ToLower U q = ToLower U (TrimSpace U provider)
        then r (ToLower U (TrimSpace U provider)) m else ResolveQuotaGroup U reg q m)
   \<and> (trimFaithful U
        \<or> list_all (\<lambda>call. ToLower U (TrimSpace U (fst call)) \<noteq> '' p '') calls \<longrightarrow>
        HasQuotaGrouping U
          (RegisterQuotaGroupResolver U (registryAfter U calls) '' P '' (Some r)) ''p''
        \<and> HasQuotaGrouping U
          (RegisterQuotaGroupResolver U (registryAfter U calls) '' P '' (Some r)) ''P''
        \<and> ResolveQuotaGroup U
          (RegisterQuotaGroupResolver U (registryAfter U calls) '' P '' (Some r)) ''p'' m
            = (if m = [] then [] else r ''p'' m)
        \<and> ResolveQuotaGroup U
          (RegisterQuotaGroupResolver U (registryAfter U calls) '' P '' (Some r)) ''P'' m
            = (if m = [] then [] else r ''p'' m)
        \<and> \<not> HasQuotaGrouping U
          (RegisterQuotaGroupResolver U (registryAfter U calls) '' P '' (Some r)) '' p ''
        \<and> ResolveQuotaGroup U
          (RegisterQuotaGroupResolver U (registryAfter U calls) '' P '' (Some r)) '' p '' m
            = [])"
proof -
  have g1: "\<And>reg provider q. HasQuotaGrouping U (RegisterQuotaGroupResolver U reg provider (Some r)) q
     = (if ToLower U (TrimSpace U provider) \<noteq> []
           \<and> ToLower U q = ToLower U (TrimSpace U provider)
        then True else HasQuotaGrouping U reg q)"
    by (auto simp: HasQuotaGrouping_def providers_after_register)
  have g2: "\<And>reg provider q. ResolveQuotaGroup U (RegisterQuotaGroupResolver U reg provider (Some r)) q m
     = (if q \<noteq> [] \<and> m \<noteq> [] \<and> ToLower U (TrimSpace U provider) \<noteq> []
           \<and> ToLower U q = ToLower U (TrimSpace U provider)
        then r (ToLower U (TrimSpace U provider)) m else ResolveQuotaGroup U reg q m)"
    by (simp add: ResolveQuotaGroup_def resolvers_after_register)
  have a: "ToLower U (TrimSpace U '' P '') = ''p''" by code_simp
  have b: "ToLower U ''p'' = ''p''" by code_simp
  have b': "ToLower U ''P'' = ''p''" by code_simp
  have c: "ToLower U '' p '' = '' p ''" by code_simp
  have e: "trimFaithful U
        \<or> list_all (\<lambda>call. ToLower U (TrimSpace U (fst call)) \<noteq> '' p '') calls \<longrightarrow>
        HasQuotaGrouping U
          (RegisterQuotaGroupResolver U (registryAfter U calls) '' P '' (Some r)) ''p''
        \<and> HasQuotaGrouping U
          (RegisterQuotaGroupResolver U (registryAfter U calls) '' P '' (Some r)) ''P''
        \<and> ResolveQuotaGroup U
          (RegisterQuotaGroupResolver U (registryAfter U calls) '' P '' (Some r)) ''p'' m
            = (if m = [] then [] else r ''p'' m)
        \<and> ResolveQuotaGroup U
          (RegisterQuotaGroupResolver U (registryAfter U calls) '' P '' (Some r)) ''P'' m
            = (if m = [] then [] else r ''p'' m)
        \<and> \<not> HasQuotaGrouping U
          (RegisterQuotaGroupResolver U (registryAfter U calls) '' P '' (Some r)) '' p ''
        \<and> ResolveQuotaGroup U
          (RegisterQuotaGroupResolver U (registryAfter U calls) '' P '' (Some r)) '' p '' m
            = []"
  proof
    assume "trimFaithful U
        \<or> list_all (\<lambda>call. ToLower U (TrimSpace U (fst call)) \<noteq> '' p '') calls"
    then have h: "list_all (\<lambda>call. ToLower U (TrimSpace U (fst call)) \<noteq> '' p '') calls"
      by (auto simp: list_all_iff faithful_key_no_leading_blank)
    have n: "'' p '' \<notin> quotaGroupProviders (registryAfter U calls)"
    proof
      assume "'' p '' \<in> quotaGroupProviders (registryAfter U calls)"
      then have "\<exists>call \<in> set calls. ToLower U (TrimSpace U (fst call)) = '' p ''"
        by (rule registered_keys)
      with h show False by (simp add: list_all_iff)
    qed
    then have n': "quotaGroupResolvers (registryAfter U calls) '' p '' = None"
      by (simp add: resolvers_dom)
    have old1: "\<not> HasQuotaGrouping U (registryAfter U calls) '' p ''"
      using n by (simp add: HasQuotaGrouping_def c)
    have old2: "ResolveQuotaGroup U (registryAfter U calls) '' p '' m = []"
      using n' by (simp add: ResolveQuotaGroup_def c)
    show "HasQuotaGrouping U
          (RegisterQuotaGroupResolver U (registryAfter U calls) '' P '' (Some r)) ''p''
        \<and> HasQuotaGrouping U
          (RegisterQuotaGroupResolver U (registryAfter U calls) '' P '' (Some r)) ''P''
        \<and> ResolveQuotaGroup U
          (RegisterQuotaGroupResolver U (registryAfter U calls) '' P '' (Some r)) ''p'' m
            = (if m = [] then [] else r ''p'' m)
        \<and> ResolveQuotaGroup U
          (RegisterQuotaGroupResolver U (registryAfter U calls) '' P '' (Some r)) ''P'' m
            = (if m = [] then [] else r ''p'' m)
        \<and> \<not> HasQuotaGrouping U
          (RegisterQuotaGroupResolver U (registryAfter U calls) '' P '' (Some r)) '' p ''
        \<and> ResolveQuotaGroup U
          (RegisterQuotaGroupResolver U (registryAfter U calls) '' P '' (Some r)) '' p '' m
            = []"
      using old1 old2 by (simp add: g1 g2 a b b' c resolve_empty_model)
  qed
  from g1 g2 e show ?thesis by blast
qed

text \<open>
  C9, at a concrete input: the registration of \<^verbatim>\<open>" P "\<close> after the one that
  \<^verbatim>\<open>init\<close> makes.
\<close>

theorem register_trims_lookup_does_not_witness:
  "trimFaithful asciiLib
   \<and> list_all (\<lambda>call. ToLower asciiLib (TrimSpace asciiLib (fst call)) \<noteq> '' p '')
     [(''antigravity'', Some (AntigravityQuotaGroupResolver asciiLib))]
   \<and> HasQuotaGrouping asciiLib
        (RegisterQuotaGroupResolver asciiLib
           (registryAfter asciiLib [(''antigravity'', Some (AntigravityQuotaGroupResolver asciiLib))])
           '' P '' (Some (AntigravityQuotaGroupResolver asciiLib))) ''P''
   \<and> ResolveQuotaGroup asciiLib
        (RegisterQuotaGroupResolver asciiLib
           (registryAfter asciiLib [(''antigravity'', Some (AntigravityQuotaGroupResolver asciiLib))])
           '' P '' (Some (AntigravityQuotaGroupResolver asciiLib))) ''p'' ''gpt-4o'' = ''gpt''
   \<and> \<not> HasQuotaGrouping asciiLib
        (RegisterQuotaGroupResolver asciiLib
           (registryAfter asciiLib [(''antigravity'', Some (AntigravityQuotaGroupResolver asciiLib))])
           '' P '' (Some (AntigravityQuotaGroupResolver asciiLib))) '' p ''
   \<and> ResolveQuotaGroup asciiLib
        (RegisterQuotaGroupResolver asciiLib
           (registryAfter asciiLib [(''antigravity'', Some (AntigravityQuotaGroupResolver asciiLib))])
           '' P '' (Some (AntigravityQuotaGroupResolver asciiLib))) '' p '' ''gpt-4o'' = []"
proof -
  have k: "ToLower asciiLib (TrimSpace asciiLib ''antigravity'') = ''antigravity''"
    by code_simp
  have h: "list_all (\<lambda>call. ToLower asciiLib (TrimSpace asciiLib (fst call)) \<noteq> '' p '')
     [(''antigravity'', Some (AntigravityQuotaGroupResolver asciiLib))]"
    by (simp add: k)
  have f: "AntigravityQuotaGroupResolver asciiLib ''p'' ''gpt-4o'' = ''gpt''"
    unfolding AntigravityQuotaGroupResolver_def by code_simp
  note t = register_trims_lookup_does_not [where U = asciiLib
      and calls = "[(''antigravity'', Some (AntigravityQuotaGroupResolver asciiLib))]"
      and r = "AntigravityQuotaGroupResolver asciiLib" and m = "''gpt-4o''",
      THEN conjunct2, THEN conjunct2, rule_format, OF disjI1 [OF asciiLib_trimFaithful]]
  from asciiLib_trimFaithful h t show ?thesis by (simp add: f)
qed

section \<open>The index of blocked groups\<close>

text \<open>
  C1, as the code has it. The claim is that after
  \<^verbatim>\<open>setGroupBlocked("g", "m", t+5s, t+60s)\<close> the call \<^verbatim>\<open>isGroupBlocked("g", t+30s)\<close>
  returns \<^verbatim>\<open>(true, t+60s)\<close>. \<^verbatim>\<open>isGroupBlocked\<close> tests \<^verbatim>\<open>NextRetryAfter.After(now)\<close>
  first, so the group is blocked exactly while \<open>now\<close> is before \<^verbatim>\<open>t+5s\<close>: then the
  call returns \<^verbatim>\<open>(true, t+60s)\<close>, the later recover-at time (unless \<^verbatim>\<open>t+60s\<close> is the
  zero time, when it returns \<^verbatim>\<open>t+5s\<close>); from \<^verbatim>\<open>t+5s\<close> on, and so at \<^verbatim>\<open>t+30s\<close>, it
  returns \<^verbatim>\<open>(false, zero time)\<close>.
\<close>

theorem retry_after_governs_unblock:
  "fst (isGroupBlocked
          (setGroupBlocked (Some ix) ''g'' ''m'' (t + 5 * Second) (t + 60 * Second)) ''g'' now) =
     (if now < t + 5 * Second
      then (True, if t + 60 * Second = zeroTime then t + 5 * Second else t + 60 * Second)
      else (False, zeroTime))
   \<and> fst (isGroupBlocked
          (setGroupBlocked (Some ix) ''g'' ''m'' (t + 5 * Second) (t + 60 * Second)) ''g''
          (t + 30 * Second)) = (False, zeroTime)"
  by (simp add: isGroupBlocked_def setGroupBlocked_def After_def IsZero_def Second_def
      zeroTime_def Let_def)

text \<open>
  C1, as the claim states it, fails on a fresh index with \<open>t\<close> at 63839664000 seconds
  after the zero time: at \<^verbatim>\<open>t+30s\<close> the call returns \<^verbatim>\<open>(false, zero time)\<close>, not
  \<^verbatim>\<open>(true, t+60s)\<close>.
\<close>

theorem recover_at_dominance_counterexample:
  "fst (isGroupBlocked
          (setGroupBlocked (Some \<lparr>blockedGroups = Some Map.empty\<rparr>) ''g'' ''m''
             (63839664000 * Second + 5 * Second) (63839664000 * Second + 60 * Second))
          ''g'' (63839664000 * Second + 30 * Second)) = (False, zeroTime)
   \<and> fst (isGroupBlocked
          (setGroupBlocked (Some \<lparr>blockedGroups = Some Map.empty\<rparr>) ''g'' ''m''
             (63839664000 * Second + 5 * Second) (63839664000 * Second + 60 * Second))
          ''g'' (63839664000 * Second + 30 * Second))
       \<noteq> (True, 63839664000 * Second + 60 * Second)"
  by (simp add: isGroupBlocked_def setGroupBlocked_def After_def IsZero_def Second_def
      zeroTime_def)

text \<open>
  C5. For every index (nil or not, with a nil map or not), every group, source model
  and pair of timestamps, and every \<open>now\<close>: after \<^verbatim>\<open>setGroupBlocked\<close> on the group and
  then \<^verbatim>\<open>clearGroup\<close> of it, \<^verbatim>\<open>isGroupBlocked\<close> of the group returns
  \<^verbatim>\<open>(false, zero time)\<close>.
\<close>

theorem cleared_group_is_not_blocked:
  "fst (isGroupBlocked
          (clearGroup (setGroupBlocked idx grp sourceModel nextRetry nextRecover) grp) grp now)
   = (False, zeroTime)"
  by (simp add: isGroupBlocked_def setGroupBlocked_def clearGroup_def Let_def
      split: option.splits)

section \<open>A shard's entries\<close>

lemma refreshEntry_None: "(refreshEntry es h n = None) = (h \<notin> hash ` set es)"
  by (induction es) auto

lemma refreshEntry_length: "refreshEntry es h n = Some es' \<Longrightarrow> length es' = length es"
  by (induction es arbitrary: es') (auto split: if_splits)

lemma refreshEntry_hashes: "refreshEntry es h n = Some es' \<Longrightarrow> map hash es' = map hash es"
  by (induction es arbitrary: es') (auto split: if_splits)

lemma refreshEntry_position:
  "refreshEntry es h n = Some es' \<Longrightarrow>
     \<exists>i<length es. hash (es ! i) = h \<and> (\<forall>j<i. hash (es ! j) \<noteq> h)
        \<and> es' = es[i := (es ! i)\<lparr>tokens := n\<rparr>]"
proof (induction es arbitrary: es')
  case Nil
  then show ?case by simp
next
  case (Cons e es)
  show ?case
  proof (cases "hash e = h")
    case True
    with Cons.prems have "es' = e\<lparr>tokens := n\<rparr> # es" by simp
    with True show ?thesis by (intro exI [of _ 0]) simp
  next
    case False
    with Cons.prems obtain es'' where r: "refreshEntry es h n = Some es''" and e: "es' = e # es''"
      by auto
    from Cons.IH [OF r] obtain i where i: "i < length es" "hash (es ! i) = h"
      "\<forall>j<i. hash (es ! j) \<noteq> h" "es'' = es[i := (es ! i)\<lparr>tokens := n\<rparr>]"
      by blast
    have "\<forall>j<Suc i. hash ((e # es) ! j) \<noteq> h"
      using False i(3) by (auto simp: nth_Cons split: nat.splits)
    with i e show ?thesis by (intro exI [of _ "Suc i"]) simp
  qed
qed

lemma getEntries_absent: "h \<notin> hash ` set es \<Longrightarrow> getEntries es h = (0, False)"
  by (induction es) auto

lemma getEntries_present:
  "distinct (map hash es) \<Longrightarrow> e \<in> set es \<Longrightarrow> getEntries es (hash e) = (tokens e, True)"
  by (induction es) auto

lemma getEntries_refreshed:
  "refreshEntry es h n = Some es' \<Longrightarrow> getEntries es' h = (n, True)"
  by (induction es arbitrary: es') (auto split: if_splits)

lemma getEntries_append_new:
  "h \<notin> hash ` set es \<Longrightarrow> getEntries (es @ [\<lparr>hash = h, tokens = n\<rparr>]) h = (n, True)"
  by (induction es) auto

lemma set_tl_subset: "set (tl es) \<subseteq> set es"
  by (cases es) auto

lemma getEntries_setEntries: "getEntries (setEntries es h n) h = (n, True)"
proof (cases "refreshEntry es h n")
  case None
  then have a: "h \<notin> hash ` set es" by (simp add: refreshEntry_None)
  then have "h \<notin> hash ` set (tl es)" using set_tl_subset [of es] by blast
  with a None show ?thesis by (simp add: setEntries_def getEntries_append_new)
next
  case (Some es')
  then show ?thesis by (simp add: setEntries_def getEntries_refreshed)
qed

lemma setEntries_length:
  "length es \<le> maxEntriesPerShard \<Longrightarrow> length (setEntries es h n) \<le> maxEntriesPerShard"
  by (cases "refreshEntry es h n")
     (auto simp: setEntries_def refreshEntry_length maxEntriesPerShard_def)

lemma setEntries_distinct:
  "distinct (map hash es) \<Longrightarrow> distinct (map hash (setEntries es h n))"
proof (cases "refreshEntry es h n")
  case None
  assume d: "distinct (map hash es)"
  from None have a: "h \<notin> hash ` set es" by (simp add: refreshEntry_None)
  then have b: "h \<notin> hash ` set (tl es)" using set_tl_subset [of es] by blast
  from d have "distinct (map hash (tl es))" by (simp add: map_tl distinct_tl)
  with d a b None show ?thesis by (simp add: setEntries_def)
next
  case (Some es')
  assume "distinct (map hash es)"
  with Some show ?thesis by (simp add: setEntries_def refreshEntry_hashes)
qed

lemma count_hash:
  "length (filter (\<lambda>e. hash e = h) xs) = count_list (map hash xs) h"
  by (induction xs) auto

lemma count_list_distinct: "distinct xs \<Longrightarrow> x \<in> set xs \<Longrightarrow> count_list xs x = 1"
  by (induction xs) (auto simp: count_list_0_iff)

lemma setEntries_once:
  "distinct (map hash es) \<Longrightarrow> length (filter (\<lambda>e. hash e = h) (setEntries es h n)) = 1"
proof -
  assume "distinct (map hash es)"
  then have d: "distinct (map hash (setEntries es h n))" by (rule setEntries_distinct)
  have m: "h \<in> set (map hash (setEntries es h n))"
  proof (rule ccontr)
    assume "h \<notin> set (map hash (setEntries es h n))"
    then have "h \<notin> hash ` set (setEntries es h n)" by simp
    then have "getEntries (setEntries es h n) h = (0, False)" by (rule getEntries_absent)
    then show False by (simp add: getEntries_setEntries)
  qed
  have "length (filter (\<lambda>e. hash e = h) (setEntries es h n))
          = count_list (map hash (setEntries es h n)) h"
    by (rule count_hash)
  also have "\<dots> = 1" using d m by (rule count_list_distinct)
  finally show ?thesis .
qed

lemma setEntries_new:
  "h \<notin> hash ` set es \<Longrightarrow>
     setEntries es h n =
       (if length es \<ge> maxEntriesPerShard then tl es else es) @ [\<lparr>hash = h, tokens = n\<rparr>]"
  using refreshEntry_None [of es h n] by (simp add: setEntries_def)

lemma setEntries_existing:
  "h \<in> hash ` set es \<Longrightarrow>
     \<exists>i<length es. hash (es ! i) = h \<and> (\<forall>j<i. hash (es ! j) \<noteq> h)
        \<and> setEntries es h n = es[i := (es ! i)\<lparr>tokens := n\<rparr>]"
proof -
  assume "h \<in> hash ` set es"
  then obtain es' where r: "refreshEntry es h n = Some es'"
    using refreshEntry_None [of es h n] by (cases "refreshEntry es h n") auto
  then have "setEntries es h n = es'" by (simp add: setEntries_def)
  with refreshEntry_position [OF r] show ?thesis by simp
qed

section \<open>The cache after a sequence of calls\<close>

lemma shardIndex_less: "shardIndex h < numShards"
proof -
  have "unat (h mod 16) < unat (16 :: 64 word)"
    by (rule unat_mono) (simp add: word_mod_less_divisor)
  then show ?thesis by (simp add: shardIndex_def numShards_def)
qed

lemma shardOf_less: "shardOf c < numShards"
  by (simp add: shardOf_def shardIndex_less)

lemma Set_length_shards: "length (shards (TokenCache_Set tc c n)) = length (shards tc)"
  by (simp add: TokenCache_Set_def Let_def)

lemma shardEntries_Set:
  "length (shards tc) = numShards \<Longrightarrow> i < numShards \<Longrightarrow>
     shardEntries (TokenCache_Set tc c n) i =
       (if i = shardOf c then setEntries (shardEntries tc i) (hashContent c) n
        else shardEntries tc i)"
  using shardIndex_less [of "hashContent c"]
  by (simp add: TokenCache_Set_def shardEntries_def shardOf_def Let_def)

lemma Get_shardEntries:
  "TokenCache_Get tc c = getEntries (shardEntries tc (shardOf c)) (hashContent c)"
  by (simp add: TokenCache_Get_def shardEntries_def shardOf_def Let_def)

lemma cacheAfter_Nil: "cacheAfter [] = NewTokenCache"
  by (simp add: cacheAfter_def)

lemma cacheAfter_snoc:
  "cacheAfter (calls @ [call]) = TokenCache_Set (cacheAfter calls) (fst call) (snd call)"
  by (simp add: cacheAfter_def)

lemma cacheAfter_length: "length (shards (cacheAfter calls)) = numShards"
  by (induction calls rule: rev_induct)
     (simp_all add: cacheAfter_Nil cacheAfter_snoc NewTokenCache_def Set_length_shards)

lemma shardEntries_New: "i < numShards \<Longrightarrow> shardEntries NewTokenCache i = []"
  by (simp add: shardEntries_def NewTokenCache_def)

lemma shardEntries_snoc:
  "i < numShards \<Longrightarrow>
     shardEntries (cacheAfter (calls @ [call])) i =
       (if i = shardOf (fst call)
        then setEntries (shardEntries (cacheAfter calls) i) (hashContent (fst call)) (snd call)
        else shardEntries (cacheAfter calls) i)"
  by (simp add: cacheAfter_snoc shardEntries_Set cacheAfter_length)

lemma cacheAfter_bounded:
  "i < numShards \<Longrightarrow> length (shardEntries (cacheAfter calls) i) \<le> maxEntriesPerShard"
  by (induction calls rule: rev_induct)
     (auto simp: cacheAfter_Nil shardEntries_New shardEntries_snoc setEntries_length)

lemma cacheAfter_distinct:
  "i < numShards \<Longrightarrow> distinct (map hash (shardEntries (cacheAfter calls) i))"
  by (induction calls rule: rev_induct)
     (auto simp: cacheAfter_Nil shardEntries_New shardEntries_snoc setEntries_distinct)

text \<open>Inserting contents with new, pairwise different hashes, all routed to shard k.\<close>

lemma fresh_inserts:
  assumes k: "k < numShards"
  shows "list_all (\<lambda>c. shardOf c = k) (map fst kvs) \<Longrightarrow>
     distinct (map (\<lambda>call. hashContent (fst call)) kvs) \<Longrightarrow>
     list_all (\<lambda>call. hashContent (fst call) \<notin> hash ` set (shardEntries (cacheAfter calls) k)) kvs \<Longrightarrow>
     shardEntries (cacheAfter (calls @ kvs)) k =
       drop (length (shardEntries (cacheAfter calls) k) + length kvs - maxEntriesPerShard)
         (shardEntries (cacheAfter calls) k @ map entryOf kvs)"
proof (induction kvs rule: rev_induct)
  case Nil
  have "length (shardEntries (cacheAfter calls) k) \<le> maxEntriesPerShard"
    using k by (rule cacheAfter_bounded)
  then show ?case by simp
next
  case (snoc kv kvs)
  define old where "old = shardEntries (cacheAfter calls) k"
  define xs where "xs = old @ map entryOf kvs"
  define d where "d = length old + length kvs - maxEntriesPerShard"
  define h where "h = hashContent (fst kv)"
  have ob: "length old \<le> maxEntriesPerShard"
    unfolding old_def using k by (rule cacheAfter_bounded)
  have es: "shardEntries (cacheAfter (calls @ kvs)) k = drop d xs"
    using snoc unfolding old_def xs_def d_def by simp
  have hk: "shardOf (fst kv) = k" using snoc.prems(1) by simp
  have h_old: "h \<notin> hash ` set old"
    using snoc.prems(3) unfolding old_def h_def by simp
  have "h \<notin> (\<lambda>call. hashContent (fst call)) ` set kvs"
    using snoc.prems(2) unfolding h_def by simp
  moreover have "hash ` set (map entryOf kvs) = (\<lambda>call. hashContent (fst call)) ` set kvs"
    by (simp add: entryOf_def image_image)
  ultimately have h_kvs: "h \<notin> hash ` set (map entryOf kvs)" by simp
  have h_xs: "h \<notin> hash ` set xs" using h_old h_kvs unfolding xs_def by auto
  then have h_es: "h \<notin> hash ` set (drop d xs)"
    using set_drop_subset [of d xs] by blast
  have step: "shardEntries (cacheAfter (calls @ kvs @ [kv])) k = setEntries (drop d xs) h (snd kv)"
    using shardEntries_snoc [OF k, of "calls @ kvs" kv] hk es by (simp add: h_def)
  have new: "setEntries (drop d xs) h (snd kv) =
      (if length (drop d xs) \<ge> maxEntriesPerShard then tl (drop d xs) else drop d xs) @ [entryOf kv]"
    using setEntries_new [OF h_es, of "snd kv"] by (simp add: entryOf_def h_def)
  have lx: "length xs = length old + length kvs" by (simp add: xs_def)
  have goal: "(if length (drop d xs) \<ge> maxEntriesPerShard then tl (drop d xs) else drop d xs) @ [entryOf kv]
      = drop (length old + length (kvs @ [kv]) - maxEntriesPerShard) (xs @ [entryOf kv])"
  proof (cases "length xs < maxEntriesPerShard")
    case True
    then have "d = 0" by (simp add: d_def lx)
    with True show ?thesis by (simp add: lx)
  next
    case False
    then have d: "d = length xs - maxEntriesPerShard" "d < length xs"
      by (simp_all add: d_def lx maxEntriesPerShard_def)
    then have len: "length (drop d xs) = maxEntriesPerShard"
      using False by (simp add: maxEntriesPerShard_def)
    have "tl (drop d xs) = drop (Suc d) xs" by (simp add: drop_Suc tl_drop)
    moreover have "length old + length (kvs @ [kv]) - maxEntriesPerShard = Suc d"
      using False d by (simp add: lx)
    ultimately show ?thesis using d len by simp
  qed
  show ?case
    using step new goal by (simp add: old_def xs_def)
qed

section \<open>Contents that fill shard 0\<close>

lemma overflow_hashes:
  "map (\<lambda>call. hashContent (fst call)) overflowCalls =
     [574303543586562736, 575397557656443456, 577374479563588384, 577392071749639760,
      616494003775949328, 616564372520154832, 617341727241110784, 617359319427162160,
      617412095985316288, 618400556938888752, 618453333497042880, 618470925683094256,
      619318649148255712, 619336241334307088, 619389017892461216, 620430255404187808,
      622125702334510720, 622143294520562096, 622196071078716224, 623184532032288688,
      623237308590442816, 623254900776494192, 624102624241655648, 624120216427707024,
      624172992985861152, 625214230497587744, 626097138334851952, 626909677427910656,
      626927269613962032, 626980046172116160, 627968507125688624, 628021283683842752,
      628038875869894128, 628886599335055584, 628904191521106960, 628956968079261088,
      629998205590987680, 630015797777039056, 630881113428251888, 631693652521310592,
      631764021265516096, 632752482219088560, 632805258777242688, 632822850963294064,
      633670574428455520, 633688166614506896, 633740943172661024, 634729404126233488,
      634782180684387616, 634799772870438992, 635665088521651824, 636477627614710528,
      637536457312488496, 637589233870642624, 637606826056694000, 638454549521855456,
      638472141707906832, 638524918266060960, 643238524615255392, 643256116801306768,
      643308893359460896, 644297354313033360, 644350130871187488, 644367723057238864,
      646045577801510400]"
  by (simp add: overflowCalls_def fullShardCalls_def hashContent_def)

lemma overflow_hashes_distinct:
  "distinct (map (\<lambda>call. hashContent (fst call)) overflowCalls)"
proof -
  have "successively (<) (map (\<lambda>call. hashContent (fst call)) overflowCalls)"
    unfolding overflow_hashes by simp
  then have "sorted_wrt (<) (map (\<lambda>call. hashContent (fst call)) overflowCalls)"
    by (simp add: successively_conv_sorted_wrt)
  then show ?thesis by (simp only: strict_sorted_iff)
qed

lemma overflow_shard: "list_all (\<lambda>c. shardOf c = 0) (map fst overflowCalls)"
proof -
  have "list_all (\<lambda>h. shardIndex h = 0) (map (\<lambda>call. hashContent (fst call)) overflowCalls)"
    unfolding overflow_hashes by (simp add: shardIndex_def numShards_def)
  then show ?thesis by (simp add: list_all_iff shardOf_def)
qed

lemma overflow_length: "length overflowCalls = Suc maxEntriesPerShard"
  by (simp add: overflowCalls_def fullShardCalls_def maxEntriesPerShard_def)

section \<open>Bounded shards, first in first out\<close>

lemma overflow_evicts_first:
  assumes len: "length kvs = Suc maxEntriesPerShard"
    and dist: "distinct (map (\<lambda>call. hashContent (fst call)) kvs)"
    and route: "list_all (\<lambda>c. shardOf c = k) (map fst kvs)"
    and new: "list_all (\<lambda>call. hashContent (fst call)
                 \<notin> hash ` set (shardEntries (cacheAfter calls) k)) kvs"
  shows "shardEntries (cacheAfter (calls @ kvs)) k = map entryOf (tl kvs)"
proof -
  from len obtain kv rest where kvs: "kvs = kv # rest" by (cases kvs) auto
  with route have "k = shardOf (fst kv)" by simp
  then have k: "k < numShards" by (simp add: shardOf_less)
  have ob: "length (shardEntries (cacheAfter calls) k) \<le> maxEntriesPerShard"
    using k by (rule cacheAfter_bounded)
  have "shardEntries (cacheAfter (calls @ kvs)) k =
      drop (length (shardEntries (cacheAfter calls) k) + length kvs - maxEntriesPerShard)
        (shardEntries (cacheAfter calls) k @ map entryOf kvs)"
    using k route dist new by (rule fresh_inserts)
  also have "length (shardEntries (cacheAfter calls) k) + length kvs - maxEntriesPerShard
      = Suc (length (shardEntries (cacheAfter calls) k))"
    using len by simp
  also have "drop (Suc (length (shardEntries (cacheAfter calls) k)))
        (shardEntries (cacheAfter calls) k @ map entryOf kvs) = map entryOf (tl kvs)"
    by (simp add: kvs)
  finally show ?thesis .
qed

lemma overflow_gets:
  assumes len: "length kvs = Suc maxEntriesPerShard"
    and dist: "distinct (map (\<lambda>call. hashContent (fst call)) kvs)"
    and route: "list_all (\<lambda>c. shardOf c = k) (map fst kvs)"
    and new: "list_all (\<lambda>call. hashContent (fst call)
                 \<notin> hash ` set (shardEntries (cacheAfter calls) k)) kvs"
  shows "TokenCache_Get (cacheAfter (calls @ kvs)) (fst (kvs ! 0)) = (0, False)"
    and "1 \<le> j \<Longrightarrow> j \<le> maxEntriesPerShard \<Longrightarrow>
         TokenCache_Get (cacheAfter (calls @ kvs)) (fst (kvs ! j)) = (snd (kvs ! j), True)"
proof -
  from len obtain kv rest where kvs: "kvs = kv # rest" by (cases kvs) auto
  have es: "shardEntries (cacheAfter (calls @ kv # rest)) k = map entryOf rest"
    using overflow_evicts_first [OF len dist route new] by (simp add: kvs)
  have hashes: "hash ` set (map entryOf rest) = (\<lambda>call. hashContent (fst call)) ` set rest"
    by (simp add: entryOf_def image_image)
  have d: "distinct (map hash (map entryOf rest))"
    using dist by (simp add: kvs entryOf_def comp_def)
  have r0: "shardOf (fst kv) = k" using route by (simp add: kvs)
  have "hashContent (fst kv) \<notin> hash ` set (map entryOf rest)"
    using dist unfolding hashes by (simp add: kvs)
  then have "getEntries (map entryOf rest) (hashContent (fst kv)) = (0, False)"
    by (rule getEntries_absent)
  then show "TokenCache_Get (cacheAfter (calls @ kvs)) (fst (kvs ! 0)) = (0, False)"
    by (simp add: Get_shardEntries kvs r0 es)
  assume j: "1 \<le> j" "j \<le> maxEntriesPerShard"
  then obtain j' where j': "j = Suc j'" "j' < length rest"
    using len by (cases j) (auto simp: kvs)
  then have m: "rest ! j' \<in> set rest" by simp
  then have rj: "shardOf (fst (rest ! j')) = k"
    using route by (simp add: kvs list_all_iff)
  from m have "entryOf (rest ! j') \<in> set (map entryOf rest)" by simp
  with d have "getEntries (map entryOf rest) (hash (entryOf (rest ! j')))
      = (tokens (entryOf (rest ! j')), True)"
    by (rule getEntries_present)
  then have "getEntries (map entryOf rest) (hashContent (fst (rest ! j'))) = (snd (rest ! j'), True)"
    by (simp add: entryOf_def)
  then show "TokenCache_Get (cacheAfter (calls @ kvs)) (fst (kvs ! j)) = (snd (kvs ! j), True)"
    by (simp add: Get_shardEntries kvs j' rj es)
qed

text \<open>
  C3. After every sequence of \<^verbatim>\<open>Set\<close> calls on a cache from \<^verbatim>\<open>NewTokenCache\<close>
  (so at every instant between two calls) each of the sixteen shards holds at most
  \<^verbatim>\<open>maxEntriesPerShard\<close> entries. A \<^verbatim>\<open>Set\<close> of a hash that is not in its shard, when
  the shard is full, leaves the shard without its front entry and with the new entry at
  the back. And \<^verbatim>\<open>maxEntriesPerShard + 1\<close> inserts of distinct contents, with no hash
  collision among them, all routed to one shard that holds none of them yet, leave the
  first content absent from \<^verbatim>\<open>Get\<close> and each of the 64 later ones present with its
  token count.
\<close>

theorem shard_bounded_and_fifo:
  "(\<forall>i<numShards. length (shardEntries (cacheAfter calls) i) \<le> maxEntriesPerShard)
   \<and> (length (shardEntries (cacheAfter calls) (shardOf c)) = maxEntriesPerShard
        \<and> hashContent c \<notin> hash ` set (shardEntries (cacheAfter calls) (shardOf c))
      \<longrightarrow> shardEntries (TokenCache_Set (cacheAfter calls) c n) (shardOf c)
           = tl (shardEntries (cacheAfter calls) (shardOf c)) @ [\<lparr>hash = hashContent c, tokens = n\<rparr>])
   \<and> (length kvs = Suc maxEntriesPerShard
        \<and> distinct (map fst kvs) \<and> inj_on hashContent (set (map fst kvs))
        \<and> list_all (\<lambda>c. shardOf c = k) (map fst kvs)
        \<and> list_all (\<lambda>call. hashContent (fst call)
              \<notin> hash ` set (shardEntries (cacheAfter calls) k)) kvs
      \<longrightarrow> TokenCache_Get (cacheAfter (calls @ kvs)) (fst (kvs ! 0)) = (0, False)
          \<and> (\<forall>j. 1 \<le> j \<and> j \<le> maxEntriesPerShard \<longrightarrow>
                TokenCache_Get (cacheAfter (calls @ kvs)) (fst (kvs ! j)) = (snd (kvs ! j), True)))"
proof (intro conjI allI impI)
  fix i assume "i < numShards"
  then show "length (shardEntries (cacheAfter calls) i) \<le> maxEntriesPerShard"
    by (rule cacheAfter_bounded)
next
  assume a: "length (shardEntries (cacheAfter calls) (shardOf c)) = maxEntriesPerShard
        \<and> hashContent c \<notin> hash ` set (shardEntries (cacheAfter calls) (shardOf c))"
  then have "setEntries (shardEntries (cacheAfter calls) (shardOf c)) (hashContent c) n
      = tl (shardEntries (cacheAfter calls) (shardOf c)) @ [\<lparr>hash = hashContent c, tokens = n\<rparr>]"
    by (simp add: setEntries_new)
  then show "shardEntries (TokenCache_Set (cacheAfter calls) c n) (shardOf c)
           = tl (shardEntries (cacheAfter calls) (shardOf c)) @ [\<lparr>hash = hashContent c, tokens = n\<rparr>]"
    by (simp add: shardEntries_Set cacheAfter_length shardOf_less)
next
  assume a: "length kvs = Suc maxEntriesPerShard
        \<and> distinct (map fst kvs) \<and> inj_on hashContent (set (map fst kvs))
        \<and> list_all (\<lambda>c. shardOf c = k) (map fst kvs)
        \<and> list_all (\<lambda>call. hashContent (fst call)
              \<notin> hash ` set (shardEntries (cacheAfter calls) k)) kvs"
  then have "distinct (map hashContent (map fst kvs))" by (simp only: distinct_map)
  then have d: "distinct (map (\<lambda>call. hashContent (fst call)) kvs)" by (simp add: comp_def)
  from a d show "TokenCache_Get (cacheAfter (calls @ kvs)) (fst (kvs ! 0)) = (0, False)"
    by (intro overflow_gets(1) [of kvs k calls]) simp_all
  fix j assume "1 \<le> j \<and> j \<le> maxEntriesPerShard"
  with a d show "TokenCache_Get (cacheAfter (calls @ kvs)) (fst (kvs ! j)) = (snd (kvs ! j), True)"
    by (intro overflow_gets(2) [of kvs k calls j]) simp_all
qed

text \<open>
  C4. On every cache a program can hold, for every content \<open>c\<close> and token counts
  \<open>t1\<close>, \<open>t2\<close>: after \<^verbatim>\<open>Set(c, t1); Set(c, t2)\<close>, \<^verbatim>\<open>Get(c)\<close> returns
  \<^verbatim>\<open>(t2, true)\<close> and the shard of \<open>c\<close> has exactly one entry with the hash of \<open>c\<close>.
\<close>

theorem set_twice_then_get:
  "TokenCache_Get (TokenCache_Set (TokenCache_Set (cacheAfter calls) c t1) c t2) c = (t2, True)
   \<and> length (filter (\<lambda>e. hash e = hashContent c)
        (shardEntries (TokenCache_Set (TokenCache_Set (cacheAfter calls) c t1) c t2) (shardOf c))) = 1"
proof -
  have tc: "TokenCache_Set (TokenCache_Set (cacheAfter calls) c t1) c t2
      = cacheAfter ((calls @ [(c, t1)]) @ [(c, t2)])"
    by (simp only: cacheAfter_snoc fst_conv snd_conv)
  have es: "shardEntries (cacheAfter ((calls @ [(c, t1)]) @ [(c, t2)])) (shardOf c)
      = setEntries (shardEntries (cacheAfter (calls @ [(c, t1)])) (shardOf c)) (hashContent c) t2"
    using shardEntries_snoc [OF shardOf_less, where calls = "calls @ [(c, t1)]" and call = "(c, t2)"]
    by simp
  have d: "distinct (map hash (shardEntries (cacheAfter (calls @ [(c, t1)])) (shardOf c)))"
    using shardOf_less by (rule cacheAfter_distinct)
  show ?thesis
    unfolding tc Get_shardEntries es
    using setEntries_once [OF d] by (simp add: getEntries_setEntries)
qed

lemma full_shard: "shardEntries (cacheAfter fullShardCalls) 0 = map entryOf fullShardCalls"
proof -
  have k: "(0::nat) < numShards" by (simp add: numShards_def)
  have r: "list_all (\<lambda>c. shardOf c = 0) (map fst fullShardCalls)"
    using overflow_shard by (simp add: overflowCalls_def)
  have d: "distinct (map (\<lambda>call. hashContent (fst call)) fullShardCalls)"
    using overflow_hashes_distinct by (simp add: overflowCalls_def)
  have n: "list_all (\<lambda>call. hashContent (fst call)
             \<notin> hash ` set (shardEntries (cacheAfter []) 0)) fullShardCalls"
    by (simp add: cacheAfter_Nil shardEntries_New k list_all_iff)
  have l: "length fullShardCalls = maxEntriesPerShard"
    using overflow_length by (simp add: overflowCalls_def)
  show ?thesis
    using fresh_inserts [OF k r d n] by (simp add: cacheAfter_Nil shardEntries_New k l)
qed

lemma overflow_nth:
  "overflowCalls ! 0 = (''1l'', 1)" "overflowCalls ! Suc 0 = (''0o'', 2)"
  "overflowCalls ! 64 = (''zm'', 65)"
  by (simp_all add: overflowCalls_def fullShardCalls_def nth_append)

lemma last_content_shard: "shardOf ''zm'' = 0"
  using overflow_shard by (simp add: overflowCalls_def)

lemma first_content_shard: "shardOf ''1l'' = 0"
  using overflow_shard by (simp add: overflowCalls_def fullShardCalls_def)

lemma last_content_new: "hashContent ''zm'' \<notin> hash ` set (map entryOf fullShardCalls)"
proof -
  have "hash ` set (map entryOf fullShardCalls)
      = (\<lambda>call. hashContent (fst call)) ` set fullShardCalls"
    by (simp add: entryOf_def image_image)
  then show ?thesis
    using overflow_hashes_distinct by (simp add: overflowCalls_def)
qed

text \<open>C3, at a concrete input: the sixty-five contents of \<open>overflowCalls\<close>, set on a fresh cache.\<close>

theorem shard_bounded_and_fifo_witness:
  "length (shardEntries (cacheAfter overflowCalls) 0) \<le> maxEntriesPerShard
   \<and> length (shardEntries (cacheAfter fullShardCalls) (shardOf ''zm'')) = maxEntriesPerShard
   \<and> hashContent ''zm'' \<notin> hash ` set (shardEntries (cacheAfter fullShardCalls) (shardOf ''zm''))
   \<and> shardEntries (TokenCache_Set (cacheAfter fullShardCalls) ''zm'' 65) (shardOf ''zm'')
       = tl (shardEntries (cacheAfter fullShardCalls) (shardOf ''zm''))
           @ [\<lparr>hash = hashContent ''zm'', tokens = 65\<rparr>]
   \<and> length overflowCalls = Suc maxEntriesPerShard
   \<and> distinct (map fst overflowCalls)
   \<and> inj_on hashContent (set (map fst overflowCalls))
   \<and> list_all (\<lambda>c. shardOf c = 0) (map fst overflowCalls)
   \<and> TokenCache_Get (cacheAfter overflowCalls) ''1l'' = (0, False)
   \<and> TokenCache_Get (cacheAfter overflowCalls) ''0o'' = (2, True)
   \<and> TokenCache_Get (cacheAfter overflowCalls) ''zm'' = (65, True)"
proof -
  have k: "(0::nat) < numShards" by (simp add: numShards_def)
  have l: "length fullShardCalls = maxEntriesPerShard"
    using overflow_length by (simp add: overflowCalls_def)
  have full: "length (shardEntries (cacheAfter fullShardCalls) (shardOf ''zm'')) = maxEntriesPerShard"
    by (simp add: last_content_shard full_shard l)
  have new: "hashContent ''zm'' \<notin> hash ` set (shardEntries (cacheAfter fullShardCalls) (shardOf ''zm''))"
    using last_content_new by (simp add: last_content_shard full_shard)
  have "distinct (map hashContent (map fst overflowCalls))"
    using overflow_hashes_distinct by (simp add: comp_def)
  then have di: "distinct (map fst overflowCalls) \<and> inj_on hashContent (set (map fst overflowCalls))"
    by (simp only: distinct_map)
  have n: "list_all (\<lambda>call. hashContent (fst call)
             \<notin> hash ` set (shardEntries (cacheAfter []) 0)) overflowCalls"
    by (simp add: cacheAfter_Nil shardEntries_New k list_all_iff)
  have j: "(1::nat) \<le> 1 \<and> 1 \<le> maxEntriesPerShard" "(1::nat) \<le> 64 \<and> 64 \<le> maxEntriesPerShard"
    by (simp_all add: maxEntriesPerShard_def)
  note a = shard_bounded_and_fifo [where calls = overflowCalls, THEN conjunct1, rule_format, OF k]
  note b = shard_bounded_and_fifo [where calls = fullShardCalls and c = "''zm''" and n = 65, THEN conjunct2, THEN conjunct1, rule_format,
      OF conjI [OF full new]]
  note c = shard_bounded_and_fifo [where calls = "[]" and kvs = overflowCalls and k = 0, THEN conjunct2, THEN conjunct2, rule_format,
      OF conjI [OF overflow_length conjI [OF di [THEN conjunct1] conjI [OF di [THEN conjunct2]
        conjI [OF overflow_shard n]]]]]
  from a b c [THEN conjunct1] c [THEN conjunct2, rule_format, OF j(1)]
    c [THEN conjunct2, rule_format, OF j(2)] full new overflow_length di overflow_shard
  show ?thesis by (simp add: overflow_nth)
qed

section \<open>Refreshing an entry\<close>

lemma refreshed_front_is_evicted:
  assumes d: "distinct (map hash es)"
    and full: "length es = maxEntriesPerShard"
    and front: "hash (hd es) = h"
    and new: "h' \<notin> hash ` set es"
  shows "setEntries (setEntries es h n) h' n' = tl es @ [\<lparr>hash = h', tokens = n'\<rparr>]"
    and "getEntries (setEntries (setEntries es h n) h' n') h = (0, False)"
proof -
  from full obtain e rest where es: "es = e # rest"
    by (cases es) (auto simp: maxEntriesPerShard_def)
  with front have he: "hash e = h" by simp
  have s1: "setEntries (e # rest) h n = e\<lparr>tokens := n\<rparr> # rest"
    by (simp add: setEntries_def he)
  have new1: "h' \<notin> hash ` set (e\<lparr>tokens := n\<rparr> # rest)" using new by (simp add: es)
  have s2: "setEntries (e\<lparr>tokens := n\<rparr> # rest) h' n' = rest @ [\<lparr>hash = h', tokens = n'\<rparr>]"
    using setEntries_new [OF new1, of n'] full by (simp add: es)
  show "setEntries (setEntries es h n) h' n' = tl es @ [\<lparr>hash = h', tokens = n'\<rparr>]"
    by (simp add: s1 s2 es)
  have "h \<noteq> h'" using new he by (auto simp: es)
  moreover have "h \<notin> hash ` set rest" using d he by (auto simp: es)
  ultimately have "h \<notin> hash ` set (rest @ [\<lparr>hash = h', tokens = n'\<rparr>])" by simp
  then have "getEntries (rest @ [\<lparr>hash = h', tokens = n'\<rparr>]) h = (0, False)"
    by (rule getEntries_absent)
  then show "getEntries (setEntries (setEntries es h n) h' n') h = (0, False)"
    by (simp add: s1 s2 es)
qed

text \<open>
  C10. When \<^verbatim>\<open>Set\<close> finds an entry with the hash of the content in its shard, the
  shard afterwards is the shard before with the token count of that one entry
  overwritten, at the same index: the length is the same (nothing is evicted, full or
  not) and every other shard is as before. A refreshed entry is not moved to the back:
  when it is the front entry of a full shard, the next \<^verbatim>\<open>Set\<close> of a new hash routed
  to that shard evicts it, and \<^verbatim>\<open>Get\<close> no longer finds it.
\<close>

theorem refresh_keeps_position:
  assumes "hashContent c \<in> hash ` set (shardEntries (cacheAfter calls) (shardOf c))"
  shows "(\<exists>i<length (shardEntries (cacheAfter calls) (shardOf c)).
            hash (shardEntries (cacheAfter calls) (shardOf c) ! i) = hashContent c
            \<and> shardEntries (TokenCache_Set (cacheAfter calls) c n) (shardOf c)
                = (shardEntries (cacheAfter calls) (shardOf c))
                    [i := (shardEntries (cacheAfter calls) (shardOf c) ! i)\<lparr>tokens := n\<rparr>])
     \<and> length (shardEntries (TokenCache_Set (cacheAfter calls) c n) (shardOf c))
         = length (shardEntries (cacheAfter calls) (shardOf c))
     \<and> (\<forall>i<numShards. i \<noteq> shardOf c \<longrightarrow>
           shardEntries (TokenCache_Set (cacheAfter calls) c n) i = shardEntries (cacheAfter calls) i)
     \<and> (length (shardEntries (cacheAfter calls) (shardOf c)) = maxEntriesPerShard
          \<and> hash (hd (shardEntries (cacheAfter calls) (shardOf c))) = hashContent c
          \<and> shardOf c' = shardOf c
          \<and> hashContent c' \<notin> hash ` set (shardEntries (cacheAfter calls) (shardOf c))
        \<longrightarrow> shardEntries (TokenCache_Set (TokenCache_Set (cacheAfter calls) c n) c' n') (shardOf c)
              = tl (shardEntries (cacheAfter calls) (shardOf c)) @ [\<lparr>hash = hashContent c', tokens = n'\<rparr>]
            \<and> TokenCache_Get (TokenCache_Set (TokenCache_Set (cacheAfter calls) c n) c' n') c
              = (0, False))"
proof -
  define es where "es = shardEntries (cacheAfter calls) (shardOf c)"
  have k: "shardOf c < numShards" by (rule shardOf_less)
  have wf: "length (shards (cacheAfter calls)) = numShards" by (rule cacheAfter_length)
  have wf1: "length (shards (TokenCache_Set (cacheAfter calls) c n)) = numShards"
    by (simp add: Set_length_shards wf)
  have s1: "shardEntries (TokenCache_Set (cacheAfter calls) c n) (shardOf c)
      = setEntries es (hashContent c) n"
    by (simp add: shardEntries_Set wf k es_def)
  from assms have "hashContent c \<in> hash ` set es" by (simp add: es_def)
  then obtain i where i: "i < length es" "hash (es ! i) = hashContent c"
    "setEntries es (hashContent c) n = es[i := (es ! i)\<lparr>tokens := n\<rparr>]"
    using setEntries_existing [of "hashContent c" es n] by blast
  have 1: "\<exists>i<length es. hash (es ! i) = hashContent c
      \<and> shardEntries (TokenCache_Set (cacheAfter calls) c n) (shardOf c)
          = es[i := (es ! i)\<lparr>tokens := n\<rparr>]"
    using i s1 by auto
  have 2: "length (shardEntries (TokenCache_Set (cacheAfter calls) c n) (shardOf c)) = length es"
    using i s1 by simp
  have 3: "\<forall>i<numShards. i \<noteq> shardOf c \<longrightarrow>
      shardEntries (TokenCache_Set (cacheAfter calls) c n) i = shardEntries (cacheAfter calls) i"
    by (simp add: shardEntries_Set wf)
  have 4: "length es = maxEntriesPerShard \<and> hash (hd es) = hashContent c
        \<and> shardOf c' = shardOf c \<and> hashContent c' \<notin> hash ` set es
      \<longrightarrow> shardEntries (TokenCache_Set (TokenCache_Set (cacheAfter calls) c n) c' n') (shardOf c)
            = tl es @ [\<lparr>hash = hashContent c', tokens = n'\<rparr>]
          \<and> TokenCache_Get (TokenCache_Set (TokenCache_Set (cacheAfter calls) c n) c' n') c
            = (0, False)"
  proof
    assume a: "length es = maxEntriesPerShard \<and> hash (hd es) = hashContent c
        \<and> shardOf c' = shardOf c \<and> hashContent c' \<notin> hash ` set es"
    have d: "distinct (map hash es)" unfolding es_def using k by (rule cacheAfter_distinct)
    have s2: "shardEntries (TokenCache_Set (TokenCache_Set (cacheAfter calls) c n) c' n') (shardOf c)
        = setEntries (setEntries es (hashContent c) n) (hashContent c') n'"
      using a by (simp add: shardEntries_Set wf1 k s1)
    from a have f: "length es = maxEntriesPerShard" and fr: "hash (hd es) = hashContent c"
      and nw: "hashContent c' \<notin> hash ` set es" by simp_all
    show "shardEntries (TokenCache_Set (TokenCache_Set (cacheAfter calls) c n) c' n') (shardOf c)
            = tl es @ [\<lparr>hash = hashContent c', tokens = n'\<rparr>]
          \<and> TokenCache_Get (TokenCache_Set (TokenCache_Set (cacheAfter calls) c n) c' n') c
            = (0, False)"
      using refreshed_front_is_evicted [OF d f fr nw, of n n']
      by (simp add: Get_shardEntries s2)
  qed
  from 1 2 3 4 show ?thesis unfolding es_def by blast
qed

text \<open>C10, at a concrete input: the shard filled by \<open>fullShardCalls\<close>, its front entry refreshed, then one more content set.\<close>

theorem refresh_keeps_position_witness:
  "hashContent ''1l'' \<in> hash ` set (shardEntries (cacheAfter fullShardCalls) (shardOf ''1l''))
   \<and> length (shardEntries (cacheAfter fullShardCalls) (shardOf ''1l'')) = maxEntriesPerShard
   \<and> hash (hd (shardEntries (cacheAfter fullShardCalls) (shardOf ''1l''))) = hashContent ''1l''
   \<and> shardOf ''zm'' = shardOf ''1l''
   \<and> hashContent ''zm'' \<notin> hash ` set (shardEntries (cacheAfter fullShardCalls) (shardOf ''1l''))
   \<and> length (shardEntries (TokenCache_Set (cacheAfter fullShardCalls) ''1l'' 100) (shardOf ''1l''))
       = length (shardEntries (cacheAfter fullShardCalls) (shardOf ''1l''))
   \<and> shardEntries (TokenCache_Set (TokenCache_Set (cacheAfter fullShardCalls) ''1l'' 100) ''zm'' 65)
         (shardOf ''1l'')
       = tl (shardEntries (cacheAfter fullShardCalls) (shardOf ''1l''))
           @ [\<lparr>hash = hashContent ''zm'', tokens = 65\<rparr>]
   \<and> TokenCache_Get (TokenCache_Set (TokenCache_Set (cacheAfter fullShardCalls) ''1l'' 100) ''zm'' 65)
         ''1l'' = (0, False)"
proof -
  have l: "length fullShardCalls = maxEntriesPerShard"
    using overflow_length by (simp add: overflowCalls_def)
  have hd: "fullShardCalls = (''1l'', 1) # tl fullShardCalls"
    by (simp add: fullShardCalls_def)
  have es: "shardEntries (cacheAfter fullShardCalls) (shardOf ''1l'') = map entryOf fullShardCalls"
    by (simp add: first_content_shard full_shard)
  have front: "hash (hd (map entryOf fullShardCalls)) = hashContent ''1l''"
    by (subst hd) (simp add: entryOf_def)
  have "entryOf (''1l'', 1) \<in> set (map entryOf fullShardCalls)"
    by (subst hd) simp
  then have "hash (entryOf (''1l'', 1)) \<in> hash ` set (map entryOf fullShardCalls)"
    by (rule imageI)
  then have present: "hashContent ''1l'' \<in> hash ` set (map entryOf fullShardCalls)"
    by (simp add: entryOf_def)
  have h1: "hashContent ''1l'' \<in> hash ` set (shardEntries (cacheAfter fullShardCalls) (shardOf ''1l''))"
    using present by (simp only: es)
  have h2: "length (shardEntries (cacheAfter fullShardCalls) (shardOf ''1l'')) = maxEntriesPerShard"
    by (simp add: es l)
  have h3: "hash (hd (shardEntries (cacheAfter fullShardCalls) (shardOf ''1l''))) = hashContent ''1l''"
    using front by (simp only: es)
  have h4: "shardOf ''zm'' = shardOf ''1l''"
    by (simp add: first_content_shard last_content_shard)
  have h5: "hashContent ''zm'' \<notin> hash ` set (shardEntries (cacheAfter fullShardCalls) (shardOf ''1l''))"
    using last_content_new by (simp add: es)
  note t = refresh_keeps_position [OF h1, where n = 100 and c' = "''zm''" and n' = 65]
  note t2 = t [THEN conjunct2, THEN conjunct1]
  note t4 = t [THEN conjunct2, THEN conjunct2, THEN conjunct2, rule_format,
      OF conjI [OF h2 conjI [OF h3 conjI [OF h4 h5]]]]
  from h1 h2 h3 h4 h5 t2 t4 show ?thesis by blast
qed

end
